theory Spec2Isabelle
  imports Main "HOL-Library.Word"
begin

section \<open>The goroutine pool of util/goroutine_pool/gp.go\<close>

text \<open>
  The pool keeps idle worker goroutines in an intrusive singly linked list whose first
  node, \<open>pool.head\<close>, is a sentinel embedded in the \<open>Pool\<close> struct. A pointer
  \<open>*goroutine\<close> is therefore either the address of the sentinel or the address of a
  heap object made by \<open>alloc\<close>; \<open>nil\<close> is \<open>None\<close>.
\<close>

datatype gptr = Head | G nat

type_synonym chan = nat

type_synonym work = nat

datatype pool_ref = ThePool

text \<open>\<open>type goroutine struct { ch; pool; next; status }\<close> (the field \<open>next\<close> is \<open>nxt\<close>).\<close>

record goroutine =
  ch :: "chan option"
  pool :: "pool_ref option"
  nxt :: "gptr option"
  status :: "32 word"

definition statusIdle :: "32 word" where "statusIdle = 0"

definition statusInUse :: "32 word" where "statusInUse = 1"

definition statusDying :: "32 word" where "statusDying = 2"

definition statusDead :: "32 word" where "statusDead = 3"

text \<open>
  Threads. A submitter is one call of \<open>Pool.Go\<close>; a worker is the background goroutine
  that \<open>alloc\<close> starts for the object \<open>G n\<close>. A program counter names the source
  statement the thread executes next and carries the thread's local variable
  (\<open>ret\<close> in \<open>get\<close>, \<open>g\<close> in \<open>Go\<close>, \<open>work\<close> in the worker loop).
\<close>

datatype tid = Sub nat | Wrk nat

datatype spc =
    S_None
  | S_Lock
  | S_Test
  | S_UnlockA
  | S_Alloc
  | S_Relink gptr
  | S_TailFix gptr
  | S_Dec gptr
  | S_Unlock gptr
  | S_Clear gptr
  | S_CAS gptr
  | S_Load gptr
  | S_MarkDead gptr
  | S_Send gptr
  | S_Done

datatype wpc =
    W_None
  | W_Start
  | W_Select
  | W_Timer
  | W_Work work
  | W_PutClear
  | W_PutLock
  | W_PutLink
  | W_PutTail
  | W_PutInc
  | W_PutIdle
  | W_PutUnlock
  | W_Reset
  | W_Exit

text \<open>
  The state: the memory of goroutine objects (\<open>gs s Head\<close> is \<open>pool.head\<close>), the other
  fields of \<open>Pool\<close>, the mutex (with the thread that holds it, recorded for the
  specification only: \<open>Lock\<close> tests whether it is held, \<open>Unlock\<close> clears it), the
  allocation counter, the threads, and the log of executed work items
  (worker, work) in the order of execution. \<open>pool.tail\<close> is never nil in a pool
  made by \<open>New\<close>: it is assigned \<open>&pool.head\<close> or the argument of \<open>put\<close> only.
\<close>

record state =
  gs :: "gptr \<Rightarrow> goroutine"
  tail :: gptr
  count :: "64 word"
  idleTimeout :: int
  lock :: "tid option"
  nalloc :: nat
  sub_pc :: "nat \<Rightarrow> spc"
  sub_f :: "nat \<Rightarrow> work"
  nsub :: nat
  wrk_pc :: "nat \<Rightarrow> wpc"
  log :: "(nat \<times> work) list"

subsection \<open>Statements\<close>

definition set_nxt :: "gptr \<Rightarrow> gptr option \<Rightarrow> state \<Rightarrow> state" where
  "set_nxt p v s = s\<lparr>gs := (gs s)(p := (gs s p)\<lparr>nxt := v\<rparr>)\<rparr>"

definition set_status :: "gptr \<Rightarrow> 32 word \<Rightarrow> state \<Rightarrow> state" where
  "set_status p v s = s\<lparr>gs := (gs s)(p := (gs s p)\<lparr>status := v\<rparr>)\<rparr>"

text \<open>\<open>atomic.CompareAndSwapInt32(&p.status, old, new)\<close>\<close>

definition cas_status :: "gptr \<Rightarrow> 32 word \<Rightarrow> 32 word \<Rightarrow> state \<Rightarrow> bool \<times> state" where
  "cas_status p old new s =
     (if status (gs s p) = old then (True, set_status p new s) else (False, s))"

definition Lock :: "tid \<Rightarrow> state \<Rightarrow> state" where
  "Lock t s = s\<lparr>lock := Some t\<rparr>"

definition Unlock :: "state \<Rightarrow> state" where
  "Unlock s = s\<lparr>lock := None\<rparr>"

subsection \<open>New, alloc, get, put\<close>

text \<open>\<open>func New(idleTimeout)\<close>, lines 47-53. Memory not yet allocated holds zero values.\<close>

definition New :: "int \<Rightarrow> state" where
  "New d =
     \<lparr>gs = (\<lambda>_. \<lparr>ch = None, pool = None, nxt = None, status = 0\<rparr>),
      tail = Head, count = 0, idleTimeout = d, lock = None, nalloc = 0,
      sub_pc = (\<lambda>_. S_None), sub_f = (\<lambda>_. 0), nsub = 0,
      wrk_pc = (\<lambda>_. W_None), log = []\<rparr>"

text \<open>
  \<open>func (pool *Pool) alloc()\<close>, lines 104-138: a fresh object with a new channel and the
  back reference, the other fields zero (\<open>next\<close> nil, \<open>status\<close> 0); the \<open>go\<close>
  statement starts its worker at the first statement of the closure.
\<close>

definition alloc :: "state \<Rightarrow> gptr \<times> state" where
  "alloc s =
     (let n = nalloc s;
          g = \<lparr>ch = Some n, pool = Some ThePool, nxt = None, status = 0\<rparr>
      in (G n, s\<lparr>nalloc := n + 1, gs := (gs s)(G n := g),
                  wrk_pc := (wrk_pc s)(n := W_Start)\<rparr>))"

text \<open>
  \<open>func (pool *Pool) get()\<close>, lines 75-92, run by thread \<open>t\<close> with no other thread
  interleaved. \<open>None\<close>: \<open>pool.Lock()\<close> blocks.
\<close>

definition get_tailfix :: "gptr \<Rightarrow> state \<Rightarrow> state" where
  "get_tailfix ret s = (if ret = tail s then s\<lparr>tail := Head\<rparr> else s)"

definition get :: "tid \<Rightarrow> state \<Rightarrow> (gptr \<times> state) option" where
  "get t s =
     (if lock s \<noteq> None then None
      else
        let s = Lock t s in
        case nxt (gs s Head) of
          None \<Rightarrow> Some (alloc (Unlock s))
        | Some ret \<Rightarrow>
            let s = set_nxt Head (nxt (gs s ret)) s;
                s = get_tailfix ret s;
                s = s\<lparr>count := count s - 1\<rparr>;
                s = Unlock s;
                s = set_nxt ret None s
            in Some (ret, s))"

text \<open>\<open>func (pool *Pool) put(p)\<close>, lines 94-102, run by thread \<open>t\<close> alone.\<close>

definition put :: "tid \<Rightarrow> gptr \<Rightarrow> state \<Rightarrow> state option" where
  "put t p s =
     (let s = set_nxt p None s in
      if lock s \<noteq> None then None
      else
        let s = Lock t s;
            s = set_nxt (tail s) (Some p) s;
            s = s\<lparr>tail := p\<rparr>;
            s = s\<lparr>count := count s + 1\<rparr>;
            s = set_status p statusIdle s
        in Some (Unlock s))"

subsection \<open>The threads, statement by statement\<close>

definition sgoto :: "nat \<Rightarrow> spc \<Rightarrow> state \<Rightarrow> state" where
  "sgoto i pc s = s\<lparr>sub_pc := (sub_pc s)(i := pc)\<rparr>"

definition wgoto :: "nat \<Rightarrow> wpc \<Rightarrow> state \<Rightarrow> state" where
  "wgoto n pc s = s\<lparr>wrk_pc := (wrk_pc s)(n := pc)\<rparr>"

text \<open>
  One statement of submitter \<open>i\<close> (\<open>Go\<close> with \<open>get\<close> and \<open>alloc\<close> inlined). A thread that
  cannot move (the mutex is held, the send has no receiver) leaves the state as it is.
  \<^item> \<open>S_Lock\<close>: line 76; \<open>S_Test\<close>: lines 77-78 and 83 (\<open>head.next\<close> read under the lock);
  \<^item> \<open>S_UnlockA\<close>, \<open>S_Alloc\<close>: lines 79, 80;
  \<^item> \<open>S_Relink\<close>, \<open>S_TailFix\<close>, \<open>S_Dec\<close>, \<open>S_Unlock\<close>, \<open>S_Clear\<close>: lines 84, 85-87, 88, 89, 90;
  \<^item> \<open>S_CAS\<close>: line 61; \<open>S_Load\<close>: line 65; \<open>S_MarkDead\<close>: line 66; \<open>S_Send\<close>: line 70.
\<close>

definition sub_step :: "nat \<Rightarrow> state \<Rightarrow> state" where
  "sub_step i s =
     (case sub_pc s i of
        S_None \<Rightarrow> s
      | S_Lock \<Rightarrow> if lock s = None then sgoto i S_Test (Lock (Sub i) s) else s
      | S_Test \<Rightarrow>
          (case nxt (gs s Head) of
             None \<Rightarrow> sgoto i S_UnlockA s
           | Some ret \<Rightarrow> sgoto i (S_Relink ret) s)
      | S_UnlockA \<Rightarrow> sgoto i S_Alloc (Unlock s)
      | S_Alloc \<Rightarrow> (case alloc s of (g, s') \<Rightarrow> sgoto i (S_CAS g) s')
      | S_Relink ret \<Rightarrow> sgoto i (S_TailFix ret) (set_nxt Head (nxt (gs s ret)) s)
      | S_TailFix ret \<Rightarrow> sgoto i (S_Dec ret) (get_tailfix ret s)
      | S_Dec ret \<Rightarrow> sgoto i (S_Unlock ret) (s\<lparr>count := count s - 1\<rparr>)
      | S_Unlock ret \<Rightarrow> sgoto i (S_Clear ret) (Unlock s)
      | S_Clear ret \<Rightarrow> sgoto i (S_CAS ret) (set_nxt ret None s)
      | S_CAS g \<Rightarrow>
          (case cas_status g statusIdle statusInUse s of
             (ok, s') \<Rightarrow> sgoto i (if ok then S_Send g else S_Load g) s')
      | S_Load g \<Rightarrow>
          sgoto i (if status (gs s g) = statusDying then S_MarkDead g else S_Lock) s
      | S_MarkDead g \<Rightarrow> sgoto i S_Lock (set_status g statusDead s)
      | S_Send g \<Rightarrow> s
      | S_Done \<Rightarrow> s)"

text \<open>
  One statement of the worker of \<open>G n\<close> (the closure of lines 109-136 with \<open>put\<close> inlined).
  \<^item> \<open>W_Start\<close>: line 110; \<open>W_Select\<close>: line 112, left by the events below;
  \<^item> \<open>W_Timer\<close>: lines 116-119; \<open>W_Work\<close>: line 121;
  \<^item> \<open>W_PutClear\<close> ... \<open>W_PutUnlock\<close>: lines 95, 96, 97, 98, 99, 100, 101;
  \<^item> \<open>W_Reset\<close>: line 134; \<open>W_Exit\<close>: the closure has returned.
  Running a work item appends it to the log; its own effects are not modelled, and it is
  taken to return (line 121 has no recover: a work item that does not return keeps its
  worker, one that panics ends the program).
\<close>

definition wrk_step :: "nat \<Rightarrow> state \<Rightarrow> state" where
  "wrk_step n s =
     (case wrk_pc s n of
        W_None \<Rightarrow> s
      | W_Start \<Rightarrow> wgoto n W_Select s
      | W_Select \<Rightarrow> s
      | W_Timer \<Rightarrow>
          (case cas_status (G n) statusIdle statusDying s of
             (succ, s') \<Rightarrow> wgoto n (if succ then W_Exit else W_Reset) s')
      | W_Work f \<Rightarrow> wgoto n W_PutClear (s\<lparr>log := log s @ [(n, f)]\<rparr>)
      | W_PutClear \<Rightarrow> wgoto n W_PutLock (set_nxt (G n) None s)
      | W_PutLock \<Rightarrow> if lock s = None then wgoto n W_PutLink (Lock (Wrk n) s) else s
      | W_PutLink \<Rightarrow> wgoto n W_PutTail (set_nxt (tail s) (Some (G n)) s)
      | W_PutTail \<Rightarrow> wgoto n W_PutInc (s\<lparr>tail := G n\<rparr>)
      | W_PutInc \<Rightarrow> wgoto n W_PutIdle (s\<lparr>count := count s + 1\<rparr>)
      | W_PutIdle \<Rightarrow> wgoto n W_PutUnlock (set_status (G n) statusIdle s)
      | W_PutUnlock \<Rightarrow> wgoto n W_Reset (Unlock s)
      | W_Reset \<Rightarrow> wgoto n W_Select s
      | W_Exit \<Rightarrow> s)"

text \<open>
  Events: a new call \<open>Go(f)\<close>; a statement of a submitter or of a worker; the timer
  channel of a worker delivering (\<open>case <-timer.C\<close>, line 113; when it does is not
  modelled); the rendezvous of a send \<open>g.ch <- f\<close> (line 70) with the receive of the
  worker waiting on the same channel (line 120).
\<close>

datatype event =
    Submit work
  | SubStep nat
  | WrkStep nat
  | TimerFire nat
  | Handoff nat nat

definition submit :: "work \<Rightarrow> state \<Rightarrow> state" where
  "submit f s =
     s\<lparr>sub_pc := (sub_pc s)(nsub s := S_Lock), sub_f := (sub_f s)(nsub s := f),
       nsub := nsub s + 1\<rparr>"

definition timer_fire :: "nat \<Rightarrow> state \<Rightarrow> state" where
  "timer_fire n s = (if wrk_pc s n = W_Select then wgoto n W_Timer s else s)"

definition handoff :: "nat \<Rightarrow> nat \<Rightarrow> state \<Rightarrow> state" where
  "handoff i n s =
     (case sub_pc s i of
        S_Send g \<Rightarrow>
          if wrk_pc s n = W_Select \<and> ch (gs s g) \<noteq> None \<and> ch (gs s g) = ch (gs s (G n))
          then sgoto i S_Done (wgoto n (W_Work (sub_f s i)) s)
          else s
      | _ \<Rightarrow> s)"

fun step :: "event \<Rightarrow> state \<Rightarrow> state" where
  "step (Submit f) s = submit f s"
| "step (SubStep i) s = sub_step i s"
| "step (WrkStep n) s = wrk_step n s"
| "step (TimerFire n) s = timer_fire n s"
| "step (Handoff i n) s = handoff i n s"

text \<open>A schedule is a list of events; the states of the pool are those a schedule reaches.\<close>

definition exec :: "event list \<Rightarrow> state \<Rightarrow> state" where
  "exec es s = foldl (\<lambda>s e. step e s) s es"

subsection \<open>The free list\<close>

text \<open>The nodes linked from \<open>p\<close> up to nil.\<close>

fun chain :: "(gptr \<Rightarrow> gptr option) \<Rightarrow> gptr option \<Rightarrow> gptr list \<Rightarrow> bool" where
  "chain nx p [] = (p = None)"
| "chain nx p (a # as) = (p = Some a \<and> chain nx (nx a) as)"

fun walk :: "nat \<Rightarrow> (gptr \<Rightarrow> gptr option) \<Rightarrow> gptr option \<Rightarrow> gptr list" where
  "walk 0 nx p = []"
| "walk (Suc k) nx None = []"
| "walk (Suc k) nx (Some a) = a # walk k nx (nx a)"

definition nx_of :: "state \<Rightarrow> gptr \<Rightarrow> gptr option" where
  "nx_of s p = nxt (gs s p)"

text \<open>The free list: the nodes after the sentinel (at most as many as were allocated).\<close>

definition free_list :: "state \<Rightarrow> gptr list" where
  "free_list s = walk (nalloc s) (nx_of s) (nx_of s Head)"

definition lastor :: "gptr list \<Rightarrow> gptr" where
  "lastor xs = (if xs = [] then Head else last xs)"

section \<open>Notions of the specification\<close>

text \<open>The \<open>status\<close> and the channel of a node, as \<open>nx_of\<close> gives its \<open>next\<close>.\<close>

definition st_of :: "state \<Rightarrow> gptr \<Rightarrow> 32 word" where
  "st_of s p = status (gs s p)"

definition ch_of :: "state \<Rightarrow> gptr \<Rightarrow> chan option" where
  "ch_of s p = ch (gs s p)"

subsection \<open>The invariant of the pool\<close>

text \<open>
  The invariant relates the threads to the memory. \<open>xs\<close> is the list of nodes linked
  from the sentinel.
  \<^item> \<open>lock_inv\<close>: the mutex is held exactly by the thread inside a critical section.
  \<^item> \<open>alloc_inv\<close>: the workers started are those of the objects allocated, each
    with its channel; the sentinel has none.
  \<^item> \<open>list_inv\<close>: \<open>xs\<close> is nil-terminated, without repetition, of allocated objects.
  \<^item> \<open>shape\<close>: \<open>tail\<close> and \<open>count\<close> agree with \<open>xs\<close>, up to the statements the
    holder of the mutex has still to execute.
  \<^item> \<open>sub_inv\<close>: the node a submitter took from \<open>get\<close> is held by no other
    submitter, is not linked, and has the status its program counter implies.
  \<^item> \<open>wrk_inv\<close>: the status of a node agrees with the program counter of its worker.
\<close>

fun crit_s :: "spc \<Rightarrow> bool" where
  "crit_s S_Test = True"
| "crit_s S_UnlockA = True"
| "crit_s (S_Relink r) = True"
| "crit_s (S_TailFix r) = True"
| "crit_s (S_Dec r) = True"
| "crit_s (S_Unlock r) = True"
| "crit_s _ = False"

fun crit_w :: "wpc \<Rightarrow> bool" where
  "crit_w W_PutLink = True"
| "crit_w W_PutTail = True"
| "crit_w W_PutInc = True"
| "crit_w W_PutIdle = True"
| "crit_w W_PutUnlock = True"
| "crit_w _ = False"

fun cand :: "spc \<Rightarrow> gptr option" where
  "cand (S_TailFix r) = Some r"
| "cand (S_Dec r) = Some r"
| "cand (S_Unlock r) = Some r"
| "cand (S_Clear r) = Some r"
| "cand (S_CAS r) = Some r"
| "cand (S_Load r) = Some r"
| "cand (S_MarkDead r) = Some r"
| "cand (S_Send r) = Some r"
| "cand _ = None"

fun st_ok :: "spc \<Rightarrow> 32 word \<Rightarrow> bool" where
  "st_ok (S_Load r) v = (v = statusDying)"
| "st_ok (S_MarkDead r) v = (v = statusDying)"
| "st_ok (S_Send r) v = (v = statusInUse)"
| "st_ok _ v = (v = statusIdle \<or> v = statusDying)"

fun w_ok :: "wpc \<Rightarrow> 32 word \<Rightarrow> bool \<Rightarrow> bool \<Rightarrow> bool \<Rightarrow> gptr option \<Rightarrow> bool" where
  "w_ok W_None v inl cnd sn nx = True"
| "w_ok (W_Work f) v inl cnd sn nx = (v = statusInUse \<and> \<not> inl \<and> \<not> cnd)"
| "w_ok W_PutClear v inl cnd sn nx = (v = statusInUse \<and> \<not> inl \<and> \<not> cnd)"
| "w_ok W_PutLock v inl cnd sn nx = (v = statusInUse \<and> \<not> inl \<and> \<not> cnd \<and> nx = None)"
| "w_ok W_PutLink v inl cnd sn nx = (v = statusInUse \<and> \<not> inl \<and> \<not> cnd \<and> nx = None)"
| "w_ok W_PutTail v inl cnd sn nx = (v = statusInUse \<and> \<not> cnd)"
| "w_ok W_PutInc v inl cnd sn nx = (v = statusInUse \<and> \<not> cnd)"
| "w_ok W_PutIdle v inl cnd sn nx = (v = statusInUse \<and> \<not> cnd)"
| "w_ok W_PutUnlock v inl cnd sn nx = (v = statusIdle \<and> \<not> cnd)"
| "w_ok W_Exit v inl cnd sn nx =
     (v = statusDying \<or> (v = statusDead \<and> \<not> inl \<and> \<not> cnd))"
| "w_ok _ v inl cnd sn nx =
     ((v = statusIdle \<and> (inl \<or> cnd)) \<or> (v = statusInUse \<and> sn))"

definition std :: "gptr \<Rightarrow> 64 word \<Rightarrow> gptr list \<Rightarrow> bool" where
  "std t c xs = (t = lastor xs \<and> c = of_nat (length xs))"

fun shape_s :: "spc \<Rightarrow> gptr \<Rightarrow> 64 word \<Rightarrow> gptr list \<Rightarrow> bool" where
  "shape_s (S_Relink r) t c xs = (std t c xs \<and> xs \<noteq> [] \<and> hd xs = r)"
| "shape_s (S_TailFix r) t c xs =
     (t = (if xs = [] then r else last xs) \<and> c = of_nat (length xs) + 1)"
| "shape_s (S_Dec r) t c xs = (t = lastor xs \<and> c = of_nat (length xs) + 1)"
| "shape_s S_UnlockA t c xs = (std t c xs \<and> xs = [])"
| "shape_s _ t c xs = std t c xs"

fun shape_w :: "wpc \<Rightarrow> nat \<Rightarrow> gptr \<Rightarrow> 64 word \<Rightarrow> gptr list \<Rightarrow> bool" where
  "shape_w W_PutTail n t c xs =
     (xs \<noteq> [] \<and> last xs = G n \<and> t = lastor (butlast xs) \<and> c + 1 = of_nat (length xs))"
| "shape_w W_PutInc n t c xs =
     (xs \<noteq> [] \<and> last xs = G n \<and> t = G n \<and> c + 1 = of_nat (length xs))"
| "shape_w W_PutIdle n t c xs = (std t c xs \<and> xs \<noteq> [] \<and> last xs = G n)"
| "shape_w W_PutUnlock n t c xs = (std t c xs \<and> xs \<noteq> [] \<and> last xs = G n)"
| "shape_w _ n t c xs = std t c xs"

definition has_cand :: "(nat \<Rightarrow> spc) \<Rightarrow> gptr \<Rightarrow> bool" where
  "has_cand P r = (\<exists>i. cand (P i) = Some r)"

definition has_send :: "(nat \<Rightarrow> spc) \<Rightarrow> gptr \<Rightarrow> bool" where
  "has_send P r = (\<exists>i. P i = S_Send r)"

definition uniq :: "(nat \<Rightarrow> spc) \<Rightarrow> bool" where
  "uniq P = (\<forall>i j r. cand (P i) = Some r \<longrightarrow> cand (P j) = Some r \<longrightarrow> i = j)"

definition lock_inv :: "state \<Rightarrow> bool" where
  "lock_inv s =
     ((\<forall>i. (lock s = Some (Sub i)) = crit_s (sub_pc s i)) \<and>
      (\<forall>n. (lock s = Some (Wrk n)) = crit_w (wrk_pc s n)))"

definition alloc_inv :: "state \<Rightarrow> bool" where
  "alloc_inv s =
     ((\<forall>n. (wrk_pc s n = W_None) = (nalloc s \<le> n)) \<and>
      (\<forall>n. n < nalloc s \<longrightarrow> ch_of s (G n) = Some n) \<and>
      ch_of s Head = None \<and>
      (\<forall>i. nsub s \<le> i \<longrightarrow> sub_pc s i = S_None))"

definition list_inv :: "state \<Rightarrow> gptr list \<Rightarrow> bool" where
  "list_inv s xs =
     (chain (nx_of s) (nx_of s Head) xs \<and> distinct xs \<and>
      (\<forall>p \<in> set xs. \<exists>n. n < nalloc s \<and> p = G n))"

definition shape :: "state \<Rightarrow> gptr list \<Rightarrow> bool" where
  "shape s xs =
     ((lock s = None \<longrightarrow> std (tail s) (count s) xs) \<and>
      (\<forall>i. lock s = Some (Sub i) \<longrightarrow> shape_s (sub_pc s i) (tail s) (count s) xs) \<and>
      (\<forall>n. lock s = Some (Wrk n) \<longrightarrow> shape_w (wrk_pc s n) n (tail s) (count s) xs))"

definition sub_inv :: "state \<Rightarrow> gptr list \<Rightarrow> bool" where
  "sub_inv s xs =
     (uniq (sub_pc s) \<and>
      (\<forall>i r. cand (sub_pc s i) = Some r \<longrightarrow>
        (\<exists>n. n < nalloc s \<and> r = G n) \<and> r \<notin> set xs \<and>
        st_ok (sub_pc s i) (st_of s r)))"

definition wrk_inv :: "state \<Rightarrow> gptr list \<Rightarrow> bool" where
  "wrk_inv s xs =
     (\<forall>n. w_ok (wrk_pc s n) (st_of s (G n)) (G n \<in> set xs)
            (has_cand (sub_pc s) (G n)) (has_send (sub_pc s) (G n)) (nx_of s (G n)))"

definition I :: "state \<Rightarrow> gptr list \<Rightarrow> bool" where
  "I s xs = (lock_inv s \<and> alloc_inv s \<and> list_inv s xs \<and> shape s xs \<and>
             sub_inv s xs \<and> wrk_inv s xs)"

text \<open>The invariant: for some list \<open>xs\<close>, all its parts hold.\<close>

definition inv :: "state \<Rightarrow> bool" where
  "inv s = (\<exists>xs. I s xs)"

text \<open>The states of the pool: those that some schedule reaches from a new pool.\<close>

definition reach :: "state \<Rightarrow> bool" where
  "reach s = (\<exists>es d. s = exec es (New d))"

subsection \<open>The status word and the log of a worker\<close>

text \<open>The status values of the four edges of the state machine.\<close>

definition edge :: "32 word \<Rightarrow> 32 word \<Rightarrow> bool" where
  "edge v w =
     ((v = statusIdle \<and> w = statusInUse) \<or> (v = statusIdle \<and> w = statusDying) \<or>
      (v = statusInUse \<and> w = statusIdle) \<or> (v = statusDying \<and> w = statusDead))"

text \<open>The work items that worker \<open>n\<close> has run, in order.\<close>

definition executed_by :: "nat \<Rightarrow> state \<Rightarrow> work list" where
  "executed_by n s = map snd (filter (\<lambda>e. fst e = n) (log s))"

subsection \<open>get and put as operations on a pool at rest\<close>

text \<open>
  A well-formed pool whose mutex is free: the nodes linked from the sentinel are \<open>q\<close>,
  in this order, and \<open>tail\<close> is the last of them, or the sentinel.
\<close>

definition wf_pool :: "state \<Rightarrow> gptr list \<Rightarrow> bool" where
  "wf_pool s q =
     (chain (nx_of s) (nx_of s Head) q \<and> distinct q \<and> Head \<notin> set q \<and>
      tail s = lastor q \<and> count s = of_nat (length q) \<and> lock s = None)"

text \<open>
  Sequences of \<open>put\<close> and \<open>get\<close> run by one thread. A \<open>get\<close> on an empty list would
  allocate, which ends the run (\<open>None\<close>).
\<close>

datatype pool_op = Put gptr | Get

fun run_ops :: "tid \<Rightarrow> pool_op list \<Rightarrow> state \<Rightarrow> (gptr list \<times> state) option" where
  "run_ops t [] s = Some ([], s)"
| "run_ops t (Put p # os) s =
     (case put t p s of None \<Rightarrow> None | Some s' \<Rightarrow> run_ops t os s')"
| "run_ops t (Get # os) s =
     (if nxt (gs s Head) = None then None
      else case get t s of
             None \<Rightarrow> None
           | Some (r, s') \<Rightarrow>
               (case run_ops t os s' of
                  None \<Rightarrow> None
                | Some (rs, s'') \<Rightarrow> Some (r # rs, s'')))"

text \<open>
  The sequences the pool produces: \<open>put\<close> is given a worker that is not linked (a
  worker puts itself back after it was claimed), and no \<open>get\<close> finds the list empty.
\<close>

fun valid_ops :: "pool_op list \<Rightarrow> gptr list \<Rightarrow> bool" where
  "valid_ops [] q = True"
| "valid_ops (Put p # os) q = (p \<notin> set q \<and> p \<noteq> Head \<and> valid_ops os (q @ [p]))"
| "valid_ops (Get # os) q = (q \<noteq> [] \<and> valid_ops os (tl q))"

fun released :: "pool_op list \<Rightarrow> gptr list" where
  "released [] = []"
| "released (Put p # os) = p # released os"
| "released (Get # os) = released os"

fun gets :: "pool_op list \<Rightarrow> nat" where
  "gets [] = 0"
| "gets (Put p # os) = gets os"
| "gets (Get # os) = Suc (gets os)"

subsection \<open>Counting the work items\<close>

text \<open>
  For a work item \<open>f\<close>: how often it was submitted, how many submitters have not yet
  handed it over, how many workers have received it and not yet run it, and how
  often it was run.
\<close>

definition submitted :: "state \<Rightarrow> work \<Rightarrow> nat" where
  "submitted s f = card {i. i < nsub s \<and> sub_f s i = f}"

definition waiting :: "state \<Rightarrow> work \<Rightarrow> nat" where
  "waiting s f = card {i. i < nsub s \<and> sub_f s i = f \<and> sub_pc s i \<noteq> S_Done}"

definition held :: "state \<Rightarrow> work \<Rightarrow> nat" where
  "held s f = card {n. n < nalloc s \<and> wrk_pc s n = W_Work f}"

definition ran :: "state \<Rightarrow> work \<Rightarrow> nat" where
  "ran s f = length (filter (\<lambda>e. snd e = f) (log s))"

definition accounted :: "state \<Rightarrow> work \<Rightarrow> bool" where
  "accounted s f = (ran s f + held s f + waiting s f = submitted s f)"

subsection \<open>Schedules without new submissions\<close>

text \<open>
  Schedules in which no new call of \<open>Go\<close> starts, and the submitters that are inside
  \<open>Go\<close>.
\<close>

fun is_submit :: "event \<Rightarrow> bool" where
  "is_submit (Submit f) = True"
| "is_submit _ = False"

definition nosub :: "event list \<Rightarrow> bool" where
  "nosub es = (\<forall>e \<in> set es. \<not> is_submit e)"

definition pending :: "spc \<Rightarrow> bool" where
  "pending pc = (pc \<noteq> S_None \<and> pc \<noteq> S_Done)"

subsection \<open>The statements the threads can still execute\<close>

text \<open>
  An event is enabled when it changes the state (lemma \<open>enabled_step\<close>): a statement
  of a thread that is not blocked, a rendezvous whose two sides are ready, a timer
  whose worker is at its select.
\<close>

fun enabled :: "event \<Rightarrow> state \<Rightarrow> bool" where
  "enabled (Submit f) s = True"
| "enabled (SubStep i) s =
     (case sub_pc s i of
        S_None \<Rightarrow> False
      | S_Lock \<Rightarrow> lock s = None
      | S_Send g \<Rightarrow> False
      | S_Done \<Rightarrow> False
      | _ \<Rightarrow> True)"
| "enabled (WrkStep n) s =
     (case wrk_pc s n of
        W_None \<Rightarrow> False
      | W_Select \<Rightarrow> False
      | W_PutLock \<Rightarrow> lock s = None
      | W_Exit \<Rightarrow> False
      | _ \<Rightarrow> True)"
| "enabled (TimerFire n) s = (wrk_pc s n = W_Select)"
| "enabled (Handoff i n) s =
     (case sub_pc s i of
        S_Send g \<Rightarrow> wrk_pc s n = W_Select \<and> ch (gs s g) \<noteq> None \<and> ch (gs s g) = ch (gs s (G n))
      | _ \<Rightarrow> False)"

text \<open>The events that are statements of the program: all but a new call and a timer.\<close>

fun is_thread :: "event \<Rightarrow> bool" where
  "is_thread (SubStep i) = True"
| "is_thread (WrkStep n) = True"
| "is_thread (Handoff i n) = True"
| "is_thread _ = False"

fun is_fire :: "event \<Rightarrow> bool" where
  "is_fire (TimerFire n) = True"
| "is_fire _ = False"

text \<open>
  The statements executed in a schedule (the enabled statements of threads), the calls
  of \<open>Go\<close> and the timer events in it.
\<close>

fun moves :: "event list \<Rightarrow> state \<Rightarrow> nat" where
  "moves [] s = 0"
| "moves (e # es) s = (if is_thread e \<and> enabled e s then 1 else 0) + moves es (step e s)"

definition submits :: "event list \<Rightarrow> nat" where
  "submits es = length (filter is_submit es)"

definition fires :: "event list \<Rightarrow> nat" where
  "fires es = length (filter is_fire es)"

text \<open>A state in which no started submitter and no allocated worker can execute a statement.\<close>

definition quiescent :: "state \<Rightarrow> bool" where
  "quiescent s =
     ((\<forall>i \<in> {..<nsub s}. \<not> enabled (SubStep i) s \<and>
          (\<forall>n \<in> {..<nalloc s}. \<not> enabled (Handoff i n) s)) \<and>
      (\<forall>n \<in> {..<nalloc s}. \<not> enabled (WrkStep n) s))"

text \<open>
  The budget of a state bounds the statements its threads can execute when no timer
  fires and no call of \<open>Go\<close> starts. A submitter at line 76 has at most 18 ahead: 7 of
  \<open>get\<close>, the compare-and-swap, the send, and the 9 of the worker that receives (the
  run of the work, the 7 statements of \<open>put\<close> and the timer reset). A worker whose
  timer channel has delivered has its compare-and-swap ahead, and a status Dying stands
  for the statements of the submitter that pops the worker, discards it and starts
  again at line 76.
\<close>

fun sub_left :: "spc \<Rightarrow> nat" where
  "sub_left S_None = 0"
| "sub_left S_Lock = 18"
| "sub_left S_Test = 17"
| "sub_left S_UnlockA = 14"
| "sub_left S_Alloc = 13"
| "sub_left (S_Relink r) = 16"
| "sub_left (S_TailFix r) = 15"
| "sub_left (S_Dec r) = 14"
| "sub_left (S_Unlock r) = 13"
| "sub_left (S_Clear r) = 12"
| "sub_left (S_CAS r) = 11"
| "sub_left (S_Load r) = 2"
| "sub_left (S_MarkDead r) = 1"
| "sub_left (S_Send r) = 10"
| "sub_left S_Done = 0"

fun wrk_left :: "wpc \<Rightarrow> nat" where
  "wrk_left W_None = 0"
| "wrk_left W_Start = 1"
| "wrk_left W_Select = 0"
| "wrk_left W_Timer = 19"
| "wrk_left (W_Work f) = 9"
| "wrk_left W_PutClear = 8"
| "wrk_left W_PutLock = 7"
| "wrk_left W_PutLink = 6"
| "wrk_left W_PutTail = 5"
| "wrk_left W_PutInc = 4"
| "wrk_left W_PutIdle = 3"
| "wrk_left W_PutUnlock = 2"
| "wrk_left W_Reset = 1"
| "wrk_left W_Exit = 0"

definition wterm :: "state \<Rightarrow> nat \<Rightarrow> nat" where
  "wterm s n = wrk_left (wrk_pc s n) + (if st_of s (G n) = statusDying then 18 else 0)"

definition sub_budget :: "state \<Rightarrow> nat" where
  "sub_budget s = (\<Sum>i<nsub s. sub_left (sub_pc s i))"

definition wrk_budget :: "state \<Rightarrow> nat" where
  "wrk_budget s = (\<Sum>n<nalloc s. wterm s n)"

definition budget :: "state \<Rightarrow> nat" where
  "budget s = sub_budget s + wrk_budget s"

text \<open>What an event adds to the budget at most.\<close>

fun cost :: "event \<Rightarrow> nat" where
  "cost (Submit f) = 18"
| "cost (TimerFire n) = 19"
| "cost _ = 0"

section \<open>Schedules used as examples\<close>

text \<open>
  \<open>claim_fresh i\<close>: submitter \<open>i\<close> finds the list empty, allocates and claims the new
  worker. \<open>serve i n\<close>: worker \<open>n\<close> receives the work of submitter \<open>i\<close>, runs it, puts
  itself back and returns to its select. \<open>pop_first i\<close>: submitter \<open>i\<close> runs \<open>get\<close> on a
  list that is not empty.
\<close>

definition claim_fresh :: "nat \<Rightarrow> event list" where
  "claim_fresh i = [SubStep i, SubStep i, SubStep i, SubStep i, SubStep i]"

definition serve :: "nat \<Rightarrow> nat \<Rightarrow> event list" where
  "serve i n = [Handoff i n, WrkStep n, WrkStep n, WrkStep n, WrkStep n, WrkStep n,
                WrkStep n, WrkStep n, WrkStep n, WrkStep n]"

definition pop_first :: "nat \<Rightarrow> event list" where
  "pop_first i = [SubStep i, SubStep i, SubStep i, SubStep i, SubStep i, SubStep i, SubStep i]"

text \<open>
  \<open>one_job\<close>: one submission served by a new worker, which is idle and linked
  afterwards. \<open>timer_pending\<close>: then its timer channel delivers. \<open>timed_out\<close>: then its
  compare-and-swap stores Dying. \<open>timer_lost\<close>: instead, a second submitter pops the
  worker, the timer channel delivers, and the submitter's compare-and-swap comes first.
\<close>

definition one_job :: "event list" where
  "one_job = Submit 7 # claim_fresh 0 @ WrkStep 0 # serve 0 0"

definition timer_pending :: "event list" where
  "timer_pending = one_job @ [TimerFire 0]"

definition timed_out :: "event list" where
  "timed_out = timer_pending @ [WrkStep 0]"

definition timer_lost :: "event list" where
  "timer_lost = one_job @ Submit 8 # pop_first 1 @ [TimerFire 0, SubStep 1]"




definition put_steps :: "nat \<Rightarrow> event list" where
  "put_steps n = [WrkStep n, WrkStep n, WrkStep n, WrkStep n, WrkStep n, WrkStep n, WrkStep n]"



text \<open>After the timeout of the only worker, a second submitter has popped it.\<close>

definition pop_dying :: "event list" where
  "pop_dying = timed_out @ Submit 8 # pop_first 1"




text \<open>One job up to the point where the worker has run the work and starts \<open>put\<close>.\<close>

definition work_done :: "event list" where
  "work_done = Submit 7 # claim_fresh 0 @ [WrkStep 0, Handoff 0 0, WrkStep 0]"

text \<open>Three jobs on three workers, each of which has run its work and starts \<open>put\<close>.\<close>

definition three_done :: "event list" where
  "three_done = Submit 7 # Submit 8 # Submit 9 # claim_fresh 0 @ claim_fresh 1 @ claim_fresh 2
     @ [WrkStep 0, WrkStep 1, WrkStep 2, Handoff 0 0, Handoff 1 1, Handoff 2 2,
        WrkStep 0, WrkStep 1, WrkStep 2]"

text \<open>
  One round in which the timer of the new worker wins: submitter \<open>i\<close> finds the list
  empty and allocates worker \<open>n\<close> (lines 76-80), the worker starts, its timer channel
  delivers and its compare-and-swap stores Dying (line 116), then the compare-and-swap
  of the submitter fails (line 61), it loads Dying and stores Dead (lines 65-66).
\<close>

definition starve_round :: "nat \<Rightarrow> nat \<Rightarrow> event list" where
  "starve_round i n = [SubStep i, SubStep i, SubStep i, SubStep i, WrkStep n, TimerFire n,
                       WrkStep n, SubStep i, SubStep i, SubStep i]"

fun starve :: "nat \<Rightarrow> event list" where
  "starve 0 = []"
| "starve (Suc k) = starve k @ starve_round 0 k"

text \<open>
  A submitter claims a new worker and hands its work over; the worker runs it, puts
  itself back and returns to its select.
\<close>

definition finish_job :: "event list" where
  "finish_job = claim_fresh 0 @ WrkStep 0 # serve 0 0"

section \<open>Reading the fields of a state\<close>

lemmas prim_defs = set_nxt_def set_status_def Lock_def Unlock_def
  sgoto_def wgoto_def get_tailfix_def

lemma nx_of_simps [simp]:
  "nx_of (set_nxt p v s) = (nx_of s)(p := v)"
  "nx_of (set_status p w s) = nx_of s"
  "nx_of (Lock t s) = nx_of s"
  "nx_of (Unlock s) = nx_of s"
  "nx_of (sgoto i pc s) = nx_of s"
  "nx_of (wgoto n wp s) = nx_of s"
  "nx_of (get_tailfix r s) = nx_of s"
  "nx_of (s\<lparr>count := c\<rparr>) = nx_of s"
  "nx_of (s\<lparr>tail := tl'\<rparr>) = nx_of s"
  "nx_of (s\<lparr>log := l\<rparr>) = nx_of s"
  by (auto simp: nx_of_def prim_defs fun_eq_iff)

lemma st_of_simps [simp]:
  "st_of (set_nxt p v s) = st_of s"
  "st_of (set_status p w s) = (st_of s)(p := w)"
  "st_of (Lock t s) = st_of s"
  "st_of (Unlock s) = st_of s"
  "st_of (sgoto i pc s) = st_of s"
  "st_of (wgoto n wp s) = st_of s"
  "st_of (get_tailfix r s) = st_of s"
  "st_of (s\<lparr>count := c\<rparr>) = st_of s"
  "st_of (s\<lparr>tail := tl'\<rparr>) = st_of s"
  "st_of (s\<lparr>log := l\<rparr>) = st_of s"
  by (auto simp: st_of_def prim_defs fun_eq_iff)

lemma ch_of_simps [simp]:
  "ch_of (set_nxt p v s) = ch_of s"
  "ch_of (set_status p w s) = ch_of s"
  "ch_of (Lock t s) = ch_of s"
  "ch_of (Unlock s) = ch_of s"
  "ch_of (sgoto i pc s) = ch_of s"
  "ch_of (wgoto n wp s) = ch_of s"
  "ch_of (get_tailfix r s) = ch_of s"
  "ch_of (s\<lparr>count := c\<rparr>) = ch_of s"
  "ch_of (s\<lparr>tail := tl'\<rparr>) = ch_of s"
  "ch_of (s\<lparr>log := l\<rparr>) = ch_of s"
  by (auto simp: ch_of_def prim_defs fun_eq_iff)

lemma field_simps1 [simp]:
  "tail (set_nxt p v s) = tail s" "count (set_nxt p v s) = count s"
  "lock (set_nxt p v s) = lock s" "nalloc (set_nxt p v s) = nalloc s"
  "sub_pc (set_nxt p v s) = sub_pc s" "sub_f (set_nxt p v s) = sub_f s"
  "nsub (set_nxt p v s) = nsub s" "wrk_pc (set_nxt p v s) = wrk_pc s"
  "log (set_nxt p v s) = log s" "idleTimeout (set_nxt p v s) = idleTimeout s"
  "tail (set_status p w s) = tail s" "count (set_status p w s) = count s"
  "lock (set_status p w s) = lock s" "nalloc (set_status p w s) = nalloc s"
  "sub_pc (set_status p w s) = sub_pc s" "sub_f (set_status p w s) = sub_f s"
  "nsub (set_status p w s) = nsub s" "wrk_pc (set_status p w s) = wrk_pc s"
  "log (set_status p w s) = log s" "idleTimeout (set_status p w s) = idleTimeout s"
  by (simp_all add: prim_defs)

lemma field_simps2 [simp]:
  "tail (Lock t s) = tail s" "count (Lock t s) = count s"
  "lock (Lock t s) = Some t" "nalloc (Lock t s) = nalloc s"
  "sub_pc (Lock t s) = sub_pc s" "sub_f (Lock t s) = sub_f s"
  "nsub (Lock t s) = nsub s" "wrk_pc (Lock t s) = wrk_pc s"
  "log (Lock t s) = log s" "idleTimeout (Lock t s) = idleTimeout s"
  "tail (Unlock s) = tail s" "count (Unlock s) = count s"
  "lock (Unlock s) = None" "nalloc (Unlock s) = nalloc s"
  "sub_pc (Unlock s) = sub_pc s" "sub_f (Unlock s) = sub_f s"
  "nsub (Unlock s) = nsub s" "wrk_pc (Unlock s) = wrk_pc s"
  "log (Unlock s) = log s" "idleTimeout (Unlock s) = idleTimeout s"
  by (simp_all add: prim_defs)

lemma field_simps3 [simp]:
  "tail (sgoto i pc s) = tail s" "count (sgoto i pc s) = count s"
  "lock (sgoto i pc s) = lock s" "nalloc (sgoto i pc s) = nalloc s"
  "sub_pc (sgoto i pc s) = (sub_pc s)(i := pc)" "sub_f (sgoto i pc s) = sub_f s"
  "nsub (sgoto i pc s) = nsub s" "wrk_pc (sgoto i pc s) = wrk_pc s"
  "log (sgoto i pc s) = log s" "idleTimeout (sgoto i pc s) = idleTimeout s"
  "tail (wgoto n wp s) = tail s" "count (wgoto n wp s) = count s"
  "lock (wgoto n wp s) = lock s" "nalloc (wgoto n wp s) = nalloc s"
  "sub_pc (wgoto n wp s) = sub_pc s" "sub_f (wgoto n wp s) = sub_f s"
  "nsub (wgoto n wp s) = nsub s" "wrk_pc (wgoto n wp s) = (wrk_pc s)(n := wp)"
  "log (wgoto n wp s) = log s" "idleTimeout (wgoto n wp s) = idleTimeout s"
  by (simp_all add: prim_defs)

lemma field_simps4 [simp]:
  "tail (get_tailfix r s) = (if r = tail s then Head else tail s)"
  "count (get_tailfix r s) = count s"
  "lock (get_tailfix r s) = lock s" "nalloc (get_tailfix r s) = nalloc s"
  "sub_pc (get_tailfix r s) = sub_pc s" "sub_f (get_tailfix r s) = sub_f s"
  "nsub (get_tailfix r s) = nsub s" "wrk_pc (get_tailfix r s) = wrk_pc s"
  "log (get_tailfix r s) = log s" "idleTimeout (get_tailfix r s) = idleTimeout s"
  by (simp_all add: prim_defs)

lemma alloc_simps [simp]:
  "fst (alloc s) = G (nalloc s)"
  "nx_of (snd (alloc s)) = (nx_of s)(G (nalloc s) := None)"
  "st_of (snd (alloc s)) = (st_of s)(G (nalloc s) := 0)"
  "ch_of (snd (alloc s)) = (ch_of s)(G (nalloc s) := Some (nalloc s))"
  "tail (snd (alloc s)) = tail s" "count (snd (alloc s)) = count s"
  "lock (snd (alloc s)) = lock s" "nalloc (snd (alloc s)) = Suc (nalloc s)"
  "sub_pc (snd (alloc s)) = sub_pc s" "sub_f (snd (alloc s)) = sub_f s"
  "nsub (snd (alloc s)) = nsub s"
  "wrk_pc (snd (alloc s)) = (wrk_pc s)(nalloc s := W_Start)"
  "log (snd (alloc s)) = log s" "idleTimeout (snd (alloc s)) = idleTimeout s"
  by (auto simp: alloc_def Let_def nx_of_def st_of_def ch_of_def fun_eq_iff)

lemma submit_simps [simp]:
  "nx_of (submit f s) = nx_of s" "st_of (submit f s) = st_of s" "ch_of (submit f s) = ch_of s"
  "tail (submit f s) = tail s" "count (submit f s) = count s"
  "lock (submit f s) = lock s" "nalloc (submit f s) = nalloc s"
  "sub_pc (submit f s) = (sub_pc s)(nsub s := S_Lock)"
  "sub_f (submit f s) = (sub_f s)(nsub s := f)"
  "nsub (submit f s) = Suc (nsub s)" "wrk_pc (submit f s) = wrk_pc s"
  "log (submit f s) = log s" "idleTimeout (submit f s) = idleTimeout s"
  by (auto simp: submit_def nx_of_def st_of_def ch_of_def)

lemma cas_status_eq:
  "cas_status p old new s =
     (st_of s p = old, if st_of s p = old then set_status p new s else s)"
  by (simp add: cas_status_def st_of_def)

subsection \<open>Linked lists in the memory\<close>

lemma chain_unique: "chain nx p xs \<Longrightarrow> chain nx p ys \<Longrightarrow> xs = ys"
  by (induction xs arbitrary: p ys) (case_tac ys; auto)+

lemma chain_upd_notin: "a \<notin> set xs \<Longrightarrow> chain (nx(a := v)) p xs = chain nx p xs"
  by (induction xs arbitrary: p) auto

lemma chain_snoc:
  "chain nx p xs \<Longrightarrow> xs \<noteq> [] \<Longrightarrow> distinct xs \<Longrightarrow> g \<notin> set xs \<Longrightarrow> nx g = None \<Longrightarrow>
   chain (nx(last xs := Some g)) p (xs @ [g])"
proof (induction xs arbitrary: p)
  case Nil
  then show ?case by simp
next
  case (Cons a xs)
  show ?case
  proof (cases "xs = []")
    case True
    with Cons.prems show ?thesis by auto
  next
    case False
    define f where "f = nx(last xs := Some g)"
    have "chain f (nx a) (xs @ [g])"
      unfolding f_def using Cons.prems False by (intro Cons.IH) auto
    moreover have "last xs \<noteq> a" using Cons.prems False by auto
    then have "f a = nx a" by (simp add: f_def)
    moreover have "p = Some a" using Cons.prems by simp
    ultimately have c: "chain f p ((a # xs) @ [g])" by simp
    have l: "last (a # xs) = last xs" using False by simp
    show ?thesis unfolding l f_def[symmetric] by (rule c)
  qed
qed

lemma walk_chain: "chain nx p xs \<Longrightarrow> length xs \<le> k \<Longrightarrow> walk k nx p = xs"
proof (induction k nx p arbitrary: xs rule: walk.induct)
  case (1 nx p)
  then show ?case by simp
next
  case (2 k nx)
  then show ?case by (cases xs) auto
next
  case (3 k nx a)
  then show ?case by (cases xs) auto
qed

section \<open>The invariant holds in every state of the pool\<close>

lemmas st_defs = statusIdle_def statusInUse_def statusDying_def statusDead_def

lemma has_cand_upd:
  "uniq P \<Longrightarrow>
   has_cand (P(i := pc)) r = (cand pc = Some r \<or> (cand (P i) \<noteq> Some r \<and> has_cand P r))"
  unfolding has_cand_def uniq_def
  by (auto split: if_splits)

lemma has_send_upd:
  "uniq P \<Longrightarrow>
   has_send (P(i := pc)) r = (pc = S_Send r \<or> (P i \<noteq> S_Send r \<and> has_send P r))"
  unfolding has_send_def uniq_def
  by (auto split: if_splits)

lemma uniq_upd:
  "uniq P \<Longrightarrow> (\<And>r. cand pc = Some r \<Longrightarrow> cand (P i) = Some r \<or> \<not> has_cand P r) \<Longrightarrow>
   uniq (P(i := pc))"
  unfolding has_cand_def uniq_def
  by (auto split: if_splits)

lemma I_New: "I (New d) []"
  by (auto simp: I_def lock_inv_def alloc_inv_def list_inv_def shape_def sub_inv_def
      wrk_inv_def std_def lastor_def uniq_def New_def nx_of_def st_of_def ch_of_def)

lemma I_submit:
  assumes "I s xs"
  shows "I (submit f s) xs"
proof -
  from assms have L: "lock_inv s" and A: "alloc_inv s" and Li: "list_inv s xs"
    and Sh: "shape s xs" and Su: "sub_inv s xs" and W: "wrk_inv s xs"
    by (simp_all add: I_def)
  have pc: "sub_pc s (nsub s) = S_None" using A by (simp add: alloc_inv_def)
  have u: "uniq (sub_pc s)" using Su by (simp add: sub_inv_def)
  have "lock_inv (submit f s)" using L pc by (auto simp: lock_inv_def)
  moreover have "alloc_inv (submit f s)" using A by (auto simp: alloc_inv_def)
  moreover have "list_inv (submit f s) xs" using Li by (auto simp: list_inv_def)
  moreover have "shape (submit f s) xs" using Sh L pc by (auto simp: shape_def lock_inv_def)
  moreover have "sub_inv (submit f s) xs" using Su pc
    by (auto simp: sub_inv_def intro!: uniq_upd)
  moreover have "wrk_inv (submit f s) xs" using W pc u
    by (auto simp: wrk_inv_def has_cand_upd has_send_upd)
  ultimately show ?thesis by (simp add: I_def)
qed

lemma I_parts:
  "I s xs \<Longrightarrow> lock_inv s" "I s xs \<Longrightarrow> alloc_inv s" "I s xs \<Longrightarrow> list_inv s xs"
  "I s xs \<Longrightarrow> shape s xs" "I s xs \<Longrightarrow> sub_inv s xs" "I s xs \<Longrightarrow> wrk_inv s xs"
  "I s xs \<Longrightarrow> uniq (sub_pc s)"
  by (simp_all add: I_def sub_inv_def)

lemma w_okD: "wrk_inv s xs \<Longrightarrow> w_ok (wrk_pc s n) (st_of s (G n)) (G n \<in> set xs)
            (has_cand (sub_pc s) (G n)) (has_send (sub_pc s) (G n)) (nx_of s (G n))"
  by (simp add: wrk_inv_def)

lemma I_S_Lock:
  assumes I: "I s xs" and pc: "sub_pc s i = S_Lock" and fr: "lock s = None"
  shows "I (sgoto i S_Test (Lock (Sub i) s)) xs"
proof -
  note P = I_parts[OF I]
  have "lock_inv (sgoto i S_Test (Lock (Sub i) s))" using P(1) pc fr
    by (auto simp: lock_inv_def)
  moreover have "alloc_inv (sgoto i S_Test (Lock (Sub i) s))" using P(2) pc
    by (auto simp: alloc_inv_def)
  moreover have "list_inv (sgoto i S_Test (Lock (Sub i) s)) xs" using P(3)
    by (auto simp: list_inv_def)
  moreover have "shape (sgoto i S_Test (Lock (Sub i) s)) xs" using P(4) fr
    by (auto simp: shape_def)
  moreover have "sub_inv (sgoto i S_Test (Lock (Sub i) s)) xs" using P(5) pc
    by (auto simp: sub_inv_def intro!: uniq_upd)
  moreover have "wrk_inv (sgoto i S_Test (Lock (Sub i) s)) xs" using P(6) P(7) pc
    by (auto simp: wrk_inv_def has_cand_upd has_send_upd)
  ultimately show ?thesis by (simp add: I_def)
qed

lemma sub_invD:
  "sub_inv s xs \<Longrightarrow> cand (sub_pc s i) = Some r \<Longrightarrow>
   (\<exists>n. n < nalloc s \<and> r = G n) \<and> r \<notin> set xs \<and> r \<noteq> Head \<and> st_ok (sub_pc s i) (st_of s r)"
  by (auto simp: sub_inv_def)

lemma in_list_no_cand:
  "I s xs \<Longrightarrow> p \<in> set xs \<Longrightarrow> \<not> has_cand (sub_pc s) p \<and> \<not> has_send (sub_pc s) p"
  by (auto simp: I_def sub_inv_def has_cand_def has_send_def) (metis cand.simps(8))

lemma list_status:
  assumes I: "I s xs" and m: "G n \<in> set xs" and c: "\<not> crit_w (wrk_pc s n)"
  shows "st_of s (G n) = statusIdle \<or> st_of s (G n) = statusDying"
proof -
  note P = I_parts[OF I]
  have "n < nalloc s" using P(3) m by (auto simp: list_inv_def)
  then have "wrk_pc s n \<noteq> W_None" using P(2) by (auto simp: alloc_inv_def)
  then show ?thesis
    using w_okD[OF P(6), of n] in_list_no_cand[OF I m] m c
    by (cases "wrk_pc s n") auto
qed

lemma I_S_Relink:
  assumes I: "I s xs" and pc: "sub_pc s i = S_Relink r"
  shows "I (sgoto i (S_TailFix r) (set_nxt Head (nxt (gs s r)) s)) (tl xs)"
proof -
  note P = I_parts[OF I]
  let ?s = "sgoto i (S_TailFix r) (set_nxt Head (nxt (gs s r)) s)"
  have lk: "lock s = Some (Sub i)" using P(1) pc by (simp add: lock_inv_def)
  have xs: "xs \<noteq> []" "hd xs = r" "tail s = lastor xs" "count s = of_nat (length xs)"
    using P(4) lk pc by (auto simp: shape_def std_def)
  then obtain ys where ys: "xs = r # ys" by (cases xs) auto
  have ch: "nx_of s Head = Some r" "chain (nx_of s) (nx_of s r) ys" "r \<notin> set ys" "distinct ys"
    "Head \<notin> set ys" "r \<noteq> Head"
    using P(3) ys by (auto simp: list_inv_def)
  obtain m where m: "r = G m" "m < nalloc s" using P(3) ys by (auto simp: list_inv_def)
  have cw: "\<And>n. \<not> crit_w (wrk_pc s n)" using P(1) lk by (auto simp: lock_inv_def)
  have nc: "\<not> has_cand (sub_pc s) r" "\<not> has_send (sub_pc s) r"
    using in_list_no_cand[OF I, of r] ys by auto
  have st: "st_of s r = statusIdle \<or> st_of s r = statusDying"
    using list_status[OF I, of m] cw ys m by auto
  have "lock_inv ?s" using P(1) pc
    by (auto simp: lock_inv_def)
  moreover have "alloc_inv ?s" using P(2) pc
    by (auto simp: alloc_inv_def)
  moreover have "list_inv ?s (tl xs)" using P(3) ys ch
    by (auto simp: list_inv_def nx_of_def[symmetric] chain_upd_notin)
  moreover have "shape ?s (tl xs)" using xs ys lk ch
    by (auto simp: shape_def lastor_def)
  moreover have "sub_inv ?s (tl xs)" using P(5) pc ys nc st m ch
    by (auto simp: sub_inv_def intro!: uniq_upd)
  moreover have "wrk_inv ?s (tl xs)"
    unfolding wrk_inv_def
  proof
    fix n
    show "w_ok (wrk_pc ?s n) (st_of ?s (G n)) (G n \<in> set (tl xs))
            (has_cand (sub_pc ?s) (G n)) (has_send (sub_pc ?s) (G n)) (nx_of ?s (G n))"
      using w_okD[OF P(6), of n] P(7) pc ys ch nc cw[of n]
      by (cases "wrk_pc s n") (auto simp: has_cand_upd has_send_upd)
  qed
  ultimately show ?thesis by (simp add: I_def)
qed

subsection \<open>Every statement preserves the invariant\<close>

lemma I_S_Test_None:
  assumes I: "I s xs" and pc: "sub_pc s i = S_Test" and e: "nxt (gs s Head) = None"
  shows "I (sgoto i S_UnlockA s) (xs)"
proof -
  note P = I_parts[OF I]
  let ?s = "sgoto i S_UnlockA s"
  let ?xs = "xs"
  have lk: "lock s = Some (Sub i)" using P(1) pc by (simp add: lock_inv_def)
  have cw: "\<And>n. \<not> crit_w (wrk_pc s n)" using P(1) lk by (auto simp: lock_inv_def)
  have cs: "\<And>j. j \<noteq> i \<Longrightarrow> \<not> crit_s (sub_pc s j)" using P(1) lk by (auto simp: lock_inv_def)
  have xe: "xs = []" using P(3) e by (cases xs) (auto simp: list_inv_def nx_of_def)
  have "lock_inv ?s" using P(1) pc
    by (auto simp: lock_inv_def)
  moreover have "alloc_inv ?s" using P(2) pc
    by (auto simp: alloc_inv_def)
  moreover have "list_inv ?s ?xs" using P(3) 
    by (auto simp: list_inv_def nx_of_def[symmetric] chain_upd_notin)
  moreover have "shape ?s ?xs" using P(4) pc lk xe
    by (auto simp: shape_def std_def lastor_def)
  moreover have "sub_inv ?s ?xs" using P(5) pc
    by (auto simp: sub_inv_def st_defs intro!: uniq_upd)
  moreover have "wrk_inv ?s ?xs"
    unfolding wrk_inv_def
  proof
    fix n
    show "w_ok (wrk_pc ?s n) (st_of ?s (G n)) (G n \<in> set ?xs)
            (has_cand (sub_pc ?s) (G n)) (has_send (sub_pc ?s) (G n)) (nx_of ?s (G n))"
      using w_okD[OF P(6), of n] P(7) pc
      by (cases "wrk_pc s n") (auto simp: has_cand_upd has_send_upd st_defs)
  qed
  ultimately show ?thesis by (simp add: I_def)
qed

lemma I_S_Test_Some:
  assumes I: "I s xs" and pc: "sub_pc s i = S_Test" and e: "nxt (gs s Head) = Some r"
  shows "I (sgoto i (S_Relink r) s) (xs)"
proof -
  note P = I_parts[OF I]
  let ?s = "sgoto i (S_Relink r) s"
  let ?xs = "xs"
  have lk: "lock s = Some (Sub i)" using P(1) pc by (simp add: lock_inv_def)
  have cw: "\<And>n. \<not> crit_w (wrk_pc s n)" using P(1) lk by (auto simp: lock_inv_def)
  have cs: "\<And>j. j \<noteq> i \<Longrightarrow> \<not> crit_s (sub_pc s j)" using P(1) lk by (auto simp: lock_inv_def)
  have xe: "xs \<noteq> []" "hd xs = r" using P(3) e by (cases xs; auto simp: list_inv_def nx_of_def)+
  have "lock_inv ?s" using P(1) pc
    by (auto simp: lock_inv_def)
  moreover have "alloc_inv ?s" using P(2) pc
    by (auto simp: alloc_inv_def)
  moreover have "list_inv ?s ?xs" using P(3) 
    by (auto simp: list_inv_def nx_of_def[symmetric] chain_upd_notin)
  moreover have "shape ?s ?xs" using P(4) pc lk xe
    by (auto simp: shape_def std_def lastor_def)
  moreover have "sub_inv ?s ?xs" using P(5) pc
    by (auto simp: sub_inv_def st_defs intro!: uniq_upd)
  moreover have "wrk_inv ?s ?xs"
    unfolding wrk_inv_def
  proof
    fix n
    show "w_ok (wrk_pc ?s n) (st_of ?s (G n)) (G n \<in> set ?xs)
            (has_cand (sub_pc ?s) (G n)) (has_send (sub_pc ?s) (G n)) (nx_of ?s (G n))"
      using w_okD[OF P(6), of n] P(7) pc
      by (cases "wrk_pc s n") (auto simp: has_cand_upd has_send_upd st_defs)
  qed
  ultimately show ?thesis by (simp add: I_def)
qed

lemma I_S_UnlockA:
  assumes I: "I s xs" and pc: "sub_pc s i = S_UnlockA"
  shows "I (sgoto i S_Alloc (Unlock s)) (xs)"
proof -
  note P = I_parts[OF I]
  let ?s = "sgoto i S_Alloc (Unlock s)"
  let ?xs = "xs"
  have lk: "lock s = Some (Sub i)" using P(1) pc by (simp add: lock_inv_def)
  have cw: "\<And>n. \<not> crit_w (wrk_pc s n)" using P(1) lk by (auto simp: lock_inv_def)
  have cs: "\<And>j. j \<noteq> i \<Longrightarrow> \<not> crit_s (sub_pc s j)" using P(1) lk by (auto simp: lock_inv_def)
  have "lock_inv ?s" using P(1) pc lk
    by (auto simp: lock_inv_def)
  moreover have "alloc_inv ?s" using P(2) pc
    by (auto simp: alloc_inv_def)
  moreover have "list_inv ?s ?xs" using P(3) 
    by (auto simp: list_inv_def nx_of_def[symmetric] chain_upd_notin)
  moreover have "shape ?s ?xs" using P(4) pc lk
    by (auto simp: shape_def std_def lastor_def)
  moreover have "sub_inv ?s ?xs" using P(5) pc
    by (auto simp: sub_inv_def st_defs intro!: uniq_upd)
  moreover have "wrk_inv ?s ?xs"
    unfolding wrk_inv_def
  proof
    fix n
    show "w_ok (wrk_pc ?s n) (st_of ?s (G n)) (G n \<in> set ?xs)
            (has_cand (sub_pc ?s) (G n)) (has_send (sub_pc ?s) (G n)) (nx_of ?s (G n))"
      using w_okD[OF P(6), of n] P(7) pc
      by (cases "wrk_pc s n") (auto simp: has_cand_upd has_send_upd st_defs)
  qed
  ultimately show ?thesis by (simp add: I_def)
qed

lemma I_S_Alloc:
  assumes I: "I s xs" and pc: "sub_pc s i = S_Alloc"
  shows "I (sgoto i (S_CAS (G (nalloc s))) (snd (alloc s))) (xs)"
proof -
  note P = I_parts[OF I]
  let ?s = "sgoto i (S_CAS (G (nalloc s))) (snd (alloc s))"
  let ?xs = "xs"
  have lk: "lock s \<noteq> Some (Sub i)" using P(1) pc by (simp add: lock_inv_def)
  have wn: "wrk_pc s (nalloc s) = W_None" using P(2) by (simp add: alloc_inv_def)
  have lw: "lock s \<noteq> Some (Wrk (nalloc s))" using P(1) wn by (simp add: lock_inv_def)
  have fr: "G (nalloc s) \<notin> set xs" using P(3) by (auto simp: list_inv_def)
  have nc: "\<not> has_cand (sub_pc s) (G (nalloc s))" using P(5) by (auto simp: sub_inv_def has_cand_def)
  have "lock_inv ?s" using P(1) pc wn
    by (auto simp: lock_inv_def)
  moreover have "alloc_inv ?s" using P(2) pc
    by (auto simp: alloc_inv_def)
  moreover have "list_inv ?s ?xs" using P(3) fr
    by (auto simp: list_inv_def nx_of_def[symmetric] chain_upd_notin)
  moreover have "shape ?s ?xs" using P(4) pc lk lw
    by (auto simp: shape_def std_def lastor_def)
  moreover have "sub_inv ?s ?xs" using P(5) pc nc fr
    by (auto simp: sub_inv_def st_defs less_Suc_eq intro!: uniq_upd)
  moreover have "wrk_inv ?s ?xs"
    unfolding wrk_inv_def
  proof
    fix n
    show "w_ok (wrk_pc ?s n) (st_of ?s (G n)) (G n \<in> set ?xs)
            (has_cand (sub_pc ?s) (G n)) (has_send (sub_pc ?s) (G n)) (nx_of ?s (G n))"
      using w_okD[OF P(6), of n] P(7) pc wn nc fr
      by (cases "wrk_pc s n") (auto simp: has_cand_upd has_send_upd st_defs)
  qed
  ultimately show ?thesis by (simp add: I_def)
qed

lemma I_S_TailFix:
  assumes I: "I s xs" and pc: "sub_pc s i = S_TailFix r"
  shows "I (sgoto i (S_Dec r) (get_tailfix r s)) (xs)"
proof -
  note P = I_parts[OF I]
  let ?s = "sgoto i (S_Dec r) (get_tailfix r s)"
  let ?xs = "xs"
  have lk: "lock s = Some (Sub i)" using P(1) pc by (simp add: lock_inv_def)
  have cw: "\<And>n. \<not> crit_w (wrk_pc s n)" using P(1) lk by (auto simp: lock_inv_def)
  have cs: "\<And>j. j \<noteq> i \<Longrightarrow> \<not> crit_s (sub_pc s j)" using P(1) lk by (auto simp: lock_inv_def)
  have me: "(\<exists>n. n < nalloc s \<and> r = G n)" "r \<notin> set xs" "r \<noteq> Head" "st_ok (sub_pc s i) (st_of s r)" using sub_invD[OF P(5), of i r] pc by auto
  have hc: "has_cand (sub_pc s) r" using pc by (auto simp: has_cand_def intro: exI[of _ i])
  have "lock_inv ?s" using P(1) pc
    by (auto simp: lock_inv_def)
  moreover have "alloc_inv ?s" using P(2) pc
    by (auto simp: alloc_inv_def)
  moreover have "list_inv ?s ?xs" using P(3) 
    by (auto simp: list_inv_def nx_of_def[symmetric] chain_upd_notin)
  moreover have "shape ?s ?xs" using P(4) pc lk me
    by (auto simp: shape_def std_def lastor_def)
  moreover have "sub_inv ?s ?xs" using P(5) pc me
    by (auto simp: sub_inv_def st_defs intro!: uniq_upd)
  moreover have "wrk_inv ?s ?xs"
    unfolding wrk_inv_def
  proof
    fix n
    show "w_ok (wrk_pc ?s n) (st_of ?s (G n)) (G n \<in> set ?xs)
            (has_cand (sub_pc ?s) (G n)) (has_send (sub_pc ?s) (G n)) (nx_of ?s (G n))"
      using w_okD[OF P(6), of n] P(7) pc me hc
      by (cases "wrk_pc s n") (auto simp: has_cand_upd has_send_upd st_defs)
  qed
  ultimately show ?thesis by (simp add: I_def)
qed

lemma I_S_Dec:
  assumes I: "I s xs" and pc: "sub_pc s i = S_Dec r"
  shows "I (sgoto i (S_Unlock r) (s\<lparr>count := count s - 1\<rparr>)) (xs)"
proof -
  note P = I_parts[OF I]
  let ?s = "sgoto i (S_Unlock r) (s\<lparr>count := count s - 1\<rparr>)"
  let ?xs = "xs"
  have lk: "lock s = Some (Sub i)" using P(1) pc by (simp add: lock_inv_def)
  have cw: "\<And>n. \<not> crit_w (wrk_pc s n)" using P(1) lk by (auto simp: lock_inv_def)
  have cs: "\<And>j. j \<noteq> i \<Longrightarrow> \<not> crit_s (sub_pc s j)" using P(1) lk by (auto simp: lock_inv_def)
  have me: "(\<exists>n. n < nalloc s \<and> r = G n)" "r \<notin> set xs" "r \<noteq> Head" "st_ok (sub_pc s i) (st_of s r)" using sub_invD[OF P(5), of i r] pc by auto
  have hc: "has_cand (sub_pc s) r" using pc by (auto simp: has_cand_def intro: exI[of _ i])
  have "lock_inv ?s" using P(1) pc
    by (auto simp: lock_inv_def)
  moreover have "alloc_inv ?s" using P(2) pc
    by (auto simp: alloc_inv_def)
  moreover have "list_inv ?s ?xs" using P(3) 
    by (auto simp: list_inv_def nx_of_def[symmetric] chain_upd_notin)
  moreover have "shape ?s ?xs" using P(4) pc lk
    by (auto simp: shape_def std_def lastor_def)
  moreover have "sub_inv ?s ?xs" using P(5) pc me
    by (auto simp: sub_inv_def st_defs intro!: uniq_upd)
  moreover have "wrk_inv ?s ?xs"
    unfolding wrk_inv_def
  proof
    fix n
    show "w_ok (wrk_pc ?s n) (st_of ?s (G n)) (G n \<in> set ?xs)
            (has_cand (sub_pc ?s) (G n)) (has_send (sub_pc ?s) (G n)) (nx_of ?s (G n))"
      using w_okD[OF P(6), of n] P(7) pc me hc
      by (cases "wrk_pc s n") (auto simp: has_cand_upd has_send_upd st_defs)
  qed
  ultimately show ?thesis by (simp add: I_def)
qed

lemma I_S_Unlock:
  assumes I: "I s xs" and pc: "sub_pc s i = S_Unlock r"
  shows "I (sgoto i (S_Clear r) (Unlock s)) (xs)"
proof -
  note P = I_parts[OF I]
  let ?s = "sgoto i (S_Clear r) (Unlock s)"
  let ?xs = "xs"
  have lk: "lock s = Some (Sub i)" using P(1) pc by (simp add: lock_inv_def)
  have cw: "\<And>n. \<not> crit_w (wrk_pc s n)" using P(1) lk by (auto simp: lock_inv_def)
  have cs: "\<And>j. j \<noteq> i \<Longrightarrow> \<not> crit_s (sub_pc s j)" using P(1) lk by (auto simp: lock_inv_def)
  have me: "(\<exists>n. n < nalloc s \<and> r = G n)" "r \<notin> set xs" "r \<noteq> Head" "st_ok (sub_pc s i) (st_of s r)" using sub_invD[OF P(5), of i r] pc by auto
  have hc: "has_cand (sub_pc s) r" using pc by (auto simp: has_cand_def intro: exI[of _ i])
  have "lock_inv ?s" using P(1) pc lk
    by (auto simp: lock_inv_def)
  moreover have "alloc_inv ?s" using P(2) pc
    by (auto simp: alloc_inv_def)
  moreover have "list_inv ?s ?xs" using P(3) 
    by (auto simp: list_inv_def nx_of_def[symmetric] chain_upd_notin)
  moreover have "shape ?s ?xs" using P(4) pc lk
    by (auto simp: shape_def std_def lastor_def)
  moreover have "sub_inv ?s ?xs" using P(5) pc me
    by (auto simp: sub_inv_def st_defs intro!: uniq_upd)
  moreover have "wrk_inv ?s ?xs"
    unfolding wrk_inv_def
  proof
    fix n
    show "w_ok (wrk_pc ?s n) (st_of ?s (G n)) (G n \<in> set ?xs)
            (has_cand (sub_pc ?s) (G n)) (has_send (sub_pc ?s) (G n)) (nx_of ?s (G n))"
      using w_okD[OF P(6), of n] P(7) pc me hc
      by (cases "wrk_pc s n") (auto simp: has_cand_upd has_send_upd st_defs)
  qed
  ultimately show ?thesis by (simp add: I_def)
qed

lemma I_S_Clear:
  assumes I: "I s xs" and pc: "sub_pc s i = S_Clear r"
  shows "I (sgoto i (S_CAS r) (set_nxt r None s)) (xs)"
proof -
  note P = I_parts[OF I]
  let ?s = "sgoto i (S_CAS r) (set_nxt r None s)"
  let ?xs = "xs"
  have lk: "lock s \<noteq> Some (Sub i)" using P(1) pc by (simp add: lock_inv_def)
  have me: "(\<exists>n. n < nalloc s \<and> r = G n)" "r \<notin> set xs" "r \<noteq> Head" "st_ok (sub_pc s i) (st_of s r)" using sub_invD[OF P(5), of i r] pc by auto
  have hc: "has_cand (sub_pc s) r" using pc by (auto simp: has_cand_def intro: exI[of _ i])
  have "lock_inv ?s" using P(1) pc
    by (auto simp: lock_inv_def)
  moreover have "alloc_inv ?s" using P(2) pc
    by (auto simp: alloc_inv_def)
  moreover have "list_inv ?s ?xs" using P(3) me
    by (auto simp: list_inv_def nx_of_def[symmetric] chain_upd_notin)
  moreover have "shape ?s ?xs" using P(4) pc lk
    by (auto simp: shape_def std_def lastor_def)
  moreover have "sub_inv ?s ?xs" using P(5) pc me
    by (auto simp: sub_inv_def st_defs intro!: uniq_upd)
  moreover have "wrk_inv ?s ?xs"
    unfolding wrk_inv_def
  proof
    fix n
    show "w_ok (wrk_pc ?s n) (st_of ?s (G n)) (G n \<in> set ?xs)
            (has_cand (sub_pc ?s) (G n)) (has_send (sub_pc ?s) (G n)) (nx_of ?s (G n))"
      using w_okD[OF P(6), of n] P(7) pc me hc
      by (cases "wrk_pc s n") (auto simp: has_cand_upd has_send_upd st_defs)
  qed
  ultimately show ?thesis by (simp add: I_def)
qed

lemma st_ok_Idle_Dying: "st_ok pc statusIdle \<Longrightarrow> st_ok pc statusDying"
  by (cases pc) (auto simp: st_defs)

lemma alloc_invD: "alloc_inv s \<Longrightarrow> wrk_pc s m \<noteq> W_None \<Longrightarrow> m < nalloc s"
  unfolding alloc_inv_def by (metis not_le)

lemma has_cand_st_send: "has_send P r \<Longrightarrow> has_cand P r"
  by (auto simp: has_send_def has_cand_def) (metis cand.simps(8))

lemma I_S_CAS_ok:
  assumes I: "I s xs" and pc: "sub_pc s i = S_CAS r" and v: "st_of s r = statusIdle"
  shows "I (sgoto i (S_Send r) (set_status r statusInUse s)) (xs)"
proof -
  note P = I_parts[OF I]
  let ?s = "sgoto i (S_Send r) (set_status r statusInUse s)"
  let ?xs = "xs"
  have lk: "lock s \<noteq> Some (Sub i)" using P(1) pc by (simp add: lock_inv_def)
  have me: "(\<exists>n. n < nalloc s \<and> r = G n)" "r \<notin> set xs" "r \<noteq> Head" "st_ok (sub_pc s i) (st_of s r)" using sub_invD[OF P(5), of i r] pc by auto
  have hc: "has_cand (sub_pc s) r" using pc by (auto simp: has_cand_def intro: exI[of _ i])
  have ot: "\<And>j. j \<noteq> i \<Longrightarrow> cand (sub_pc s j) \<noteq> Some r" using P(7) pc by (auto simp: uniq_def)
  have "lock_inv ?s" using P(1) pc
    by (auto simp: lock_inv_def)
  moreover have "alloc_inv ?s" using P(2) pc
    by (auto simp: alloc_inv_def)
  moreover have "list_inv ?s ?xs" using P(3) 
    by (auto simp: list_inv_def nx_of_def[symmetric] chain_upd_notin)
  moreover have "shape ?s ?xs" using P(4) pc lk
    by (auto simp: shape_def std_def lastor_def)
  moreover have "sub_inv ?s ?xs" using P(5) pc me v ot
    by (auto simp: sub_inv_def st_defs intro!: uniq_upd)
  moreover have "wrk_inv ?s ?xs"
    unfolding wrk_inv_def
  proof
    fix n
    show "w_ok (wrk_pc ?s n) (st_of ?s (G n)) (G n \<in> set ?xs)
            (has_cand (sub_pc ?s) (G n)) (has_send (sub_pc ?s) (G n)) (nx_of ?s (G n))"
      using w_okD[OF P(6), of n] P(7) pc me hc v
      by (cases "wrk_pc s n") (auto simp: has_cand_upd has_send_upd st_defs)
  qed
  ultimately show ?thesis by (simp add: I_def)
qed

lemma I_S_CAS_fail:
  assumes I: "I s xs" and pc: "sub_pc s i = S_CAS r" and v: "st_of s r \<noteq> statusIdle"
  shows "I (sgoto i (S_Load r) s) (xs)"
proof -
  note P = I_parts[OF I]
  let ?s = "sgoto i (S_Load r) s"
  let ?xs = "xs"
  have lk: "lock s \<noteq> Some (Sub i)" using P(1) pc by (simp add: lock_inv_def)
  have me: "(\<exists>n. n < nalloc s \<and> r = G n)" "r \<notin> set xs" "r \<noteq> Head" "st_ok (sub_pc s i) (st_of s r)" using sub_invD[OF P(5), of i r] pc by auto
  have hc: "has_cand (sub_pc s) r" using pc by (auto simp: has_cand_def intro: exI[of _ i])
  have ot: "\<And>j. j \<noteq> i \<Longrightarrow> cand (sub_pc s j) \<noteq> Some r" using P(7) pc by (auto simp: uniq_def)
  have "lock_inv ?s" using P(1) pc
    by (auto simp: lock_inv_def)
  moreover have "alloc_inv ?s" using P(2) pc
    by (auto simp: alloc_inv_def)
  moreover have "list_inv ?s ?xs" using P(3) 
    by (auto simp: list_inv_def nx_of_def[symmetric] chain_upd_notin)
  moreover have "shape ?s ?xs" using P(4) pc lk
    by (auto simp: shape_def std_def lastor_def)
  moreover have "sub_inv ?s ?xs" using P(5) pc me v ot
    by (auto simp: sub_inv_def st_defs intro!: uniq_upd)
  moreover have "wrk_inv ?s ?xs"
    unfolding wrk_inv_def
  proof
    fix n
    show "w_ok (wrk_pc ?s n) (st_of ?s (G n)) (G n \<in> set ?xs)
            (has_cand (sub_pc ?s) (G n)) (has_send (sub_pc ?s) (G n)) (nx_of ?s (G n))"
      using w_okD[OF P(6), of n] P(7) pc me hc v
      by (cases "wrk_pc s n") (auto simp: has_cand_upd has_send_upd st_defs)
  qed
  ultimately show ?thesis by (simp add: I_def)
qed

lemma I_S_Load:
  assumes I: "I s xs" and pc: "sub_pc s i = S_Load r"
  shows "I (sgoto i (if status (gs s r) = statusDying then S_MarkDead r else S_Lock) s) (xs)"
proof -
  note P = I_parts[OF I]
  let ?s = "sgoto i (if status (gs s r) = statusDying then S_MarkDead r else S_Lock) s"
  let ?xs = "xs"
  have lk: "lock s \<noteq> Some (Sub i)" using P(1) pc by (simp add: lock_inv_def)
  have me: "(\<exists>n. n < nalloc s \<and> r = G n)" "r \<notin> set xs" "r \<noteq> Head" "st_ok (sub_pc s i) (st_of s r)" using sub_invD[OF P(5), of i r] pc by auto
  have hc: "has_cand (sub_pc s) r" using pc by (auto simp: has_cand_def intro: exI[of _ i])
  have ot: "\<And>j. j \<noteq> i \<Longrightarrow> cand (sub_pc s j) \<noteq> Some r" using P(7) pc by (auto simp: uniq_def)
  have v: "status (gs s r) = statusDying" using me pc by (simp add: st_of_def)
  have "lock_inv ?s" using P(1) pc v
    by (auto simp: lock_inv_def)
  moreover have "alloc_inv ?s" using P(2) pc v
    by (auto simp: alloc_inv_def)
  moreover have "list_inv ?s ?xs" using P(3) v
    by (auto simp: list_inv_def nx_of_def[symmetric] chain_upd_notin)
  moreover have "shape ?s ?xs" using P(4) pc lk v
    by (auto simp: shape_def std_def lastor_def)
  moreover have "sub_inv ?s ?xs" using P(5) pc me v ot
    by (auto simp: sub_inv_def st_defs intro!: uniq_upd)
  moreover have "wrk_inv ?s ?xs"
    unfolding wrk_inv_def
  proof
    fix n
    show "w_ok (wrk_pc ?s n) (st_of ?s (G n)) (G n \<in> set ?xs)
            (has_cand (sub_pc ?s) (G n)) (has_send (sub_pc ?s) (G n)) (nx_of ?s (G n))"
      using w_okD[OF P(6), of n] P(7) pc me hc v
      by (cases "wrk_pc s n") (auto simp: has_cand_upd has_send_upd st_defs)
  qed
  ultimately show ?thesis by (simp add: I_def)
qed

lemma I_S_MarkDead:
  assumes I: "I s xs" and pc: "sub_pc s i = S_MarkDead r"
  shows "I (sgoto i S_Lock (set_status r statusDead s)) (xs)"
proof -
  note P = I_parts[OF I]
  let ?s = "sgoto i S_Lock (set_status r statusDead s)"
  let ?xs = "xs"
  have lk: "lock s \<noteq> Some (Sub i)" using P(1) pc by (simp add: lock_inv_def)
  have me: "(\<exists>n. n < nalloc s \<and> r = G n)" "r \<notin> set xs" "r \<noteq> Head" "st_ok (sub_pc s i) (st_of s r)" using sub_invD[OF P(5), of i r] pc by auto
  have hc: "has_cand (sub_pc s) r" using pc by (auto simp: has_cand_def intro: exI[of _ i])
  have ot: "\<And>j. j \<noteq> i \<Longrightarrow> cand (sub_pc s j) \<noteq> Some r" using P(7) pc by (auto simp: uniq_def)
  have "lock_inv ?s" using P(1) pc
    by (auto simp: lock_inv_def)
  moreover have "alloc_inv ?s" using P(2) pc
    by (auto simp: alloc_inv_def)
  moreover have "list_inv ?s ?xs" using P(3) 
    by (auto simp: list_inv_def nx_of_def[symmetric] chain_upd_notin)
  moreover have "shape ?s ?xs" using P(4) pc lk
    by (auto simp: shape_def std_def lastor_def)
  moreover have "sub_inv ?s ?xs" using P(5) pc me ot
    by (auto simp: sub_inv_def st_defs intro!: uniq_upd)
  moreover have "wrk_inv ?s ?xs"
    unfolding wrk_inv_def
  proof
    fix n
    show "w_ok (wrk_pc ?s n) (st_of ?s (G n)) (G n \<in> set ?xs)
            (has_cand (sub_pc ?s) (G n)) (has_send (sub_pc ?s) (G n)) (nx_of ?s (G n))"
      using w_okD[OF P(6), of n] P(7) pc me hc
      by (cases "wrk_pc s n") (auto simp: has_cand_upd has_send_upd st_defs)
  qed
  ultimately show ?thesis by (simp add: I_def)
qed

lemma I_handoff:
  assumes I: "I s xs" and pc: "sub_pc s i = S_Send r" and wp: "wrk_pc s m = W_Select" and c: "ch (gs s r) \<noteq> None" and ce: "ch (gs s r) = ch (gs s (G m))"
  shows "I (sgoto i S_Done (wgoto m (W_Work (sub_f s i)) s)) (xs)"
proof -
  note P = I_parts[OF I]
  let ?s = "sgoto i S_Done (wgoto m (W_Work (sub_f s i)) s)"
  let ?xs = "xs"
  have lk: "lock s \<noteq> Some (Sub i)" using P(1) pc by (simp add: lock_inv_def)
  have me: "(\<exists>n. n < nalloc s \<and> r = G n)" "r \<notin> set xs" "r \<noteq> Head" "st_ok (sub_pc s i) (st_of s r)" using sub_invD[OF P(5), of i r] pc by auto
  have hc: "has_cand (sub_pc s) r" using pc by (auto simp: has_cand_def intro: exI[of _ i])
  have ot: "\<And>j. j \<noteq> i \<Longrightarrow> cand (sub_pc s j) \<noteq> Some r" using P(7) pc by (auto simp: uniq_def)
  have ma: "m < nalloc s" using alloc_invD[OF P(2), of m] wp by simp
  have rm: "r = G m" using me(1) ma P(2) ce by (auto simp: alloc_inv_def ch_of_def)
  have lw: "lock s \<noteq> Some (Wrk m)" using P(1) wp by (simp add: lock_inv_def)
  have "lock_inv ?s" using P(1) pc wp
    by (auto simp: lock_inv_def)
  moreover have "alloc_inv ?s" using P(2) pc wp ma
    by (auto simp: alloc_inv_def)
  moreover have "list_inv ?s ?xs" using P(3) 
    by (auto simp: list_inv_def nx_of_def[symmetric] chain_upd_notin)
  moreover have "shape ?s ?xs" using P(4) pc lk lw
    by (auto simp: shape_def std_def lastor_def)
  moreover have "sub_inv ?s ?xs" using P(5) pc me ot
    by (auto simp: sub_inv_def st_defs intro!: uniq_upd)
  moreover have "wrk_inv ?s ?xs"
    unfolding wrk_inv_def
  proof
    fix n
    show "w_ok (wrk_pc ?s n) (st_of ?s (G n)) (G n \<in> set ?xs)
            (has_cand (sub_pc ?s) (G n)) (has_send (sub_pc ?s) (G n)) (nx_of ?s (G n))"
      using w_okD[OF P(6), of n] P(7) pc wp me hc rm
      by (cases "wrk_pc s n") (auto simp: has_cand_upd has_send_upd st_defs)
  qed
  ultimately show ?thesis by (simp add: I_def)
qed

lemma I_W_Start:
  assumes I: "I s xs" and wp: "wrk_pc s m = W_Start"
  shows "I (wgoto m W_Select s) (xs)"
proof -
  note P = I_parts[OF I]
  let ?s = "wgoto m W_Select s"
  let ?xs = "xs"
  have mw: "w_ok (wrk_pc s m) (st_of s (G m)) (G m \<in> set xs) (has_cand (sub_pc s) (G m)) (has_send (sub_pc s) (G m)) (nx_of s (G m))" by (rule w_okD[OF P(6)])
  have ma: "m < nalloc s" using alloc_invD[OF P(2), of m] wp by simp
  have lw: "lock s \<noteq> Some (Wrk m)" using P(1) wp by (simp add: lock_inv_def)
  have "lock_inv ?s" using P(1) wp
    by (auto simp: lock_inv_def)
  moreover have "alloc_inv ?s" using P(2) wp ma
    by (auto simp: alloc_inv_def)
  moreover have "list_inv ?s ?xs" using P(3) 
    by (auto simp: list_inv_def nx_of_def[symmetric] chain_upd_notin)
  moreover have "shape ?s ?xs" using P(4) wp lw
    by (auto simp: shape_def std_def lastor_def)
  moreover have "sub_inv ?s ?xs" using P(5) wp mw
    by (auto simp: sub_inv_def st_defs intro!: uniq_upd)
  moreover have "wrk_inv ?s ?xs"
    unfolding wrk_inv_def
  proof
    fix n
    show "w_ok (wrk_pc ?s n) (st_of ?s (G n)) (G n \<in> set ?xs)
            (has_cand (sub_pc ?s) (G n)) (has_send (sub_pc ?s) (G n)) (nx_of ?s (G n))"
      using w_okD[OF P(6), of n] P(7) wp mw
      by (cases "wrk_pc s n") (auto simp: has_cand_upd has_send_upd st_defs)
  qed
  ultimately show ?thesis by (simp add: I_def)
qed

lemma I_W_Reset:
  assumes I: "I s xs" and wp: "wrk_pc s m = W_Reset"
  shows "I (wgoto m W_Select s) (xs)"
proof -
  note P = I_parts[OF I]
  let ?s = "wgoto m W_Select s"
  let ?xs = "xs"
  have mw: "w_ok (wrk_pc s m) (st_of s (G m)) (G m \<in> set xs) (has_cand (sub_pc s) (G m)) (has_send (sub_pc s) (G m)) (nx_of s (G m))" by (rule w_okD[OF P(6)])
  have ma: "m < nalloc s" using alloc_invD[OF P(2), of m] wp by simp
  have lw: "lock s \<noteq> Some (Wrk m)" using P(1) wp by (simp add: lock_inv_def)
  have "lock_inv ?s" using P(1) wp
    by (auto simp: lock_inv_def)
  moreover have "alloc_inv ?s" using P(2) wp ma
    by (auto simp: alloc_inv_def)
  moreover have "list_inv ?s ?xs" using P(3) 
    by (auto simp: list_inv_def nx_of_def[symmetric] chain_upd_notin)
  moreover have "shape ?s ?xs" using P(4) wp lw
    by (auto simp: shape_def std_def lastor_def)
  moreover have "sub_inv ?s ?xs" using P(5) wp mw
    by (auto simp: sub_inv_def st_defs intro!: uniq_upd)
  moreover have "wrk_inv ?s ?xs"
    unfolding wrk_inv_def
  proof
    fix n
    show "w_ok (wrk_pc ?s n) (st_of ?s (G n)) (G n \<in> set ?xs)
            (has_cand (sub_pc ?s) (G n)) (has_send (sub_pc ?s) (G n)) (nx_of ?s (G n))"
      using w_okD[OF P(6), of n] P(7) wp mw
      by (cases "wrk_pc s n") (auto simp: has_cand_upd has_send_upd st_defs)
  qed
  ultimately show ?thesis by (simp add: I_def)
qed

lemma I_timer:
  assumes I: "I s xs" and wp: "wrk_pc s m = W_Select"
  shows "I (wgoto m W_Timer s) (xs)"
proof -
  note P = I_parts[OF I]
  let ?s = "wgoto m W_Timer s"
  let ?xs = "xs"
  have mw: "w_ok (wrk_pc s m) (st_of s (G m)) (G m \<in> set xs) (has_cand (sub_pc s) (G m)) (has_send (sub_pc s) (G m)) (nx_of s (G m))" by (rule w_okD[OF P(6)])
  have ma: "m < nalloc s" using alloc_invD[OF P(2), of m] wp by simp
  have lw: "lock s \<noteq> Some (Wrk m)" using P(1) wp by (simp add: lock_inv_def)
  have "lock_inv ?s" using P(1) wp
    by (auto simp: lock_inv_def)
  moreover have "alloc_inv ?s" using P(2) wp ma
    by (auto simp: alloc_inv_def)
  moreover have "list_inv ?s ?xs" using P(3) 
    by (auto simp: list_inv_def nx_of_def[symmetric] chain_upd_notin)
  moreover have "shape ?s ?xs" using P(4) wp lw
    by (auto simp: shape_def std_def lastor_def)
  moreover have "sub_inv ?s ?xs" using P(5) wp mw
    by (auto simp: sub_inv_def st_defs intro!: uniq_upd)
  moreover have "wrk_inv ?s ?xs"
    unfolding wrk_inv_def
  proof
    fix n
    show "w_ok (wrk_pc ?s n) (st_of ?s (G n)) (G n \<in> set ?xs)
            (has_cand (sub_pc ?s) (G n)) (has_send (sub_pc ?s) (G n)) (nx_of ?s (G n))"
      using w_okD[OF P(6), of n] P(7) wp mw
      by (cases "wrk_pc s n") (auto simp: has_cand_upd has_send_upd st_defs)
  qed
  ultimately show ?thesis by (simp add: I_def)
qed

lemma I_W_Timer_ok:
  assumes I: "I s xs" and wp: "wrk_pc s m = W_Timer" and v: "st_of s (G m) = statusIdle"
  shows "I (wgoto m W_Exit (set_status (G m) statusDying s)) (xs)"
proof -
  note P = I_parts[OF I]
  let ?s = "wgoto m W_Exit (set_status (G m) statusDying s)"
  let ?xs = "xs"
  have mw: "w_ok (wrk_pc s m) (st_of s (G m)) (G m \<in> set xs) (has_cand (sub_pc s) (G m)) (has_send (sub_pc s) (G m)) (nx_of s (G m))" by (rule w_okD[OF P(6)])
  have ma: "m < nalloc s" using alloc_invD[OF P(2), of m] wp by simp
  have lw: "lock s \<noteq> Some (Wrk m)" using P(1) wp by (simp add: lock_inv_def)
  have so: "\<And>j. cand (sub_pc s j) = Some (G m) \<Longrightarrow> st_ok (sub_pc s j) statusDying" using sub_invD[OF P(5)] v st_ok_Idle_Dying by metis
  have "lock_inv ?s" using P(1) wp
    by (auto simp: lock_inv_def)
  moreover have "alloc_inv ?s" using P(2) wp ma
    by (auto simp: alloc_inv_def)
  moreover have "list_inv ?s ?xs" using P(3) 
    by (auto simp: list_inv_def nx_of_def[symmetric] chain_upd_notin)
  moreover have "shape ?s ?xs" using P(4) wp lw
    by (auto simp: shape_def std_def lastor_def)
  moreover have "sub_inv ?s ?xs" using P(5) wp mw v so
    by (auto simp: sub_inv_def st_defs intro!: uniq_upd)
  moreover have "wrk_inv ?s ?xs"
    unfolding wrk_inv_def
  proof
    fix n
    show "w_ok (wrk_pc ?s n) (st_of ?s (G n)) (G n \<in> set ?xs)
            (has_cand (sub_pc ?s) (G n)) (has_send (sub_pc ?s) (G n)) (nx_of ?s (G n))"
      using w_okD[OF P(6), of n] P(7) wp mw v
      by (cases "wrk_pc s n") (auto simp: has_cand_upd has_send_upd st_defs)
  qed
  ultimately show ?thesis by (simp add: I_def)
qed

lemma I_W_Timer_fail:
  assumes I: "I s xs" and wp: "wrk_pc s m = W_Timer" and v: "st_of s (G m) \<noteq> statusIdle"
  shows "I (wgoto m W_Reset s) (xs)"
proof -
  note P = I_parts[OF I]
  let ?s = "wgoto m W_Reset s"
  let ?xs = "xs"
  have mw: "w_ok (wrk_pc s m) (st_of s (G m)) (G m \<in> set xs) (has_cand (sub_pc s) (G m)) (has_send (sub_pc s) (G m)) (nx_of s (G m))" by (rule w_okD[OF P(6)])
  have ma: "m < nalloc s" using alloc_invD[OF P(2), of m] wp by simp
  have lw: "lock s \<noteq> Some (Wrk m)" using P(1) wp by (simp add: lock_inv_def)
  have "lock_inv ?s" using P(1) wp
    by (auto simp: lock_inv_def)
  moreover have "alloc_inv ?s" using P(2) wp ma
    by (auto simp: alloc_inv_def)
  moreover have "list_inv ?s ?xs" using P(3) 
    by (auto simp: list_inv_def nx_of_def[symmetric] chain_upd_notin)
  moreover have "shape ?s ?xs" using P(4) wp lw
    by (auto simp: shape_def std_def lastor_def)
  moreover have "sub_inv ?s ?xs" using P(5) wp mw v
    by (auto simp: sub_inv_def st_defs intro!: uniq_upd)
  moreover have "wrk_inv ?s ?xs"
    unfolding wrk_inv_def
  proof
    fix n
    show "w_ok (wrk_pc ?s n) (st_of ?s (G n)) (G n \<in> set ?xs)
            (has_cand (sub_pc ?s) (G n)) (has_send (sub_pc ?s) (G n)) (nx_of ?s (G n))"
      using w_okD[OF P(6), of n] P(7) wp mw v
      by (cases "wrk_pc s n") (auto simp: has_cand_upd has_send_upd st_defs)
  qed
  ultimately show ?thesis by (simp add: I_def)
qed

lemma I_W_Work:
  assumes I: "I s xs" and wp: "wrk_pc s m = W_Work f"
  shows "I (wgoto m W_PutClear (s\<lparr>log := log s @ [(m, f)]\<rparr>)) (xs)"
proof -
  note P = I_parts[OF I]
  let ?s = "wgoto m W_PutClear (s\<lparr>log := log s @ [(m, f)]\<rparr>)"
  let ?xs = "xs"
  have mw: "w_ok (wrk_pc s m) (st_of s (G m)) (G m \<in> set xs) (has_cand (sub_pc s) (G m)) (has_send (sub_pc s) (G m)) (nx_of s (G m))" by (rule w_okD[OF P(6)])
  have ma: "m < nalloc s" using alloc_invD[OF P(2), of m] wp by simp
  have lw: "lock s \<noteq> Some (Wrk m)" using P(1) wp by (simp add: lock_inv_def)
  have "lock_inv ?s" using P(1) wp
    by (auto simp: lock_inv_def)
  moreover have "alloc_inv ?s" using P(2) wp ma
    by (auto simp: alloc_inv_def)
  moreover have "list_inv ?s ?xs" using P(3) 
    by (auto simp: list_inv_def nx_of_def[symmetric] chain_upd_notin)
  moreover have "shape ?s ?xs" using P(4) wp lw
    by (auto simp: shape_def std_def lastor_def)
  moreover have "sub_inv ?s ?xs" using P(5) wp mw
    by (auto simp: sub_inv_def st_defs intro!: uniq_upd)
  moreover have "wrk_inv ?s ?xs"
    unfolding wrk_inv_def
  proof
    fix n
    show "w_ok (wrk_pc ?s n) (st_of ?s (G n)) (G n \<in> set ?xs)
            (has_cand (sub_pc ?s) (G n)) (has_send (sub_pc ?s) (G n)) (nx_of ?s (G n))"
      using w_okD[OF P(6), of n] P(7) wp mw
      by (cases "wrk_pc s n") (auto simp: has_cand_upd has_send_upd st_defs)
  qed
  ultimately show ?thesis by (simp add: I_def)
qed

lemma I_W_PutClear:
  assumes I: "I s xs" and wp: "wrk_pc s m = W_PutClear"
  shows "I (wgoto m W_PutLock (set_nxt (G m) None s)) (xs)"
proof -
  note P = I_parts[OF I]
  let ?s = "wgoto m W_PutLock (set_nxt (G m) None s)"
  let ?xs = "xs"
  have mw: "w_ok (wrk_pc s m) (st_of s (G m)) (G m \<in> set xs) (has_cand (sub_pc s) (G m)) (has_send (sub_pc s) (G m)) (nx_of s (G m))" by (rule w_okD[OF P(6)])
  have ma: "m < nalloc s" using alloc_invD[OF P(2), of m] wp by simp
  have lw: "lock s \<noteq> Some (Wrk m)" using P(1) wp by (simp add: lock_inv_def)
  have "lock_inv ?s" using P(1) wp
    by (auto simp: lock_inv_def)
  moreover have "alloc_inv ?s" using P(2) wp ma
    by (auto simp: alloc_inv_def)
  moreover have "list_inv ?s ?xs" using P(3) wp mw
    by (auto simp: list_inv_def nx_of_def[symmetric] chain_upd_notin)
  moreover have "shape ?s ?xs" using P(4) wp lw
    by (auto simp: shape_def std_def lastor_def)
  moreover have "sub_inv ?s ?xs" using P(5) wp mw
    by (auto simp: sub_inv_def st_defs intro!: uniq_upd)
  moreover have "wrk_inv ?s ?xs"
    unfolding wrk_inv_def
  proof
    fix n
    show "w_ok (wrk_pc ?s n) (st_of ?s (G n)) (G n \<in> set ?xs)
            (has_cand (sub_pc ?s) (G n)) (has_send (sub_pc ?s) (G n)) (nx_of ?s (G n))"
      using w_okD[OF P(6), of n] P(7) wp mw
      by (cases "wrk_pc s n") (auto simp: has_cand_upd has_send_upd st_defs)
  qed
  ultimately show ?thesis by (simp add: I_def)
qed

lemma I_W_PutLock:
  assumes I: "I s xs" and wp: "wrk_pc s m = W_PutLock" and fr: "lock s = None"
  shows "I (wgoto m W_PutLink (Lock (Wrk m) s)) (xs)"
proof -
  note P = I_parts[OF I]
  let ?s = "wgoto m W_PutLink (Lock (Wrk m) s)"
  let ?xs = "xs"
  have mw: "w_ok (wrk_pc s m) (st_of s (G m)) (G m \<in> set xs) (has_cand (sub_pc s) (G m)) (has_send (sub_pc s) (G m)) (nx_of s (G m))" by (rule w_okD[OF P(6)])
  have ma: "m < nalloc s" using alloc_invD[OF P(2), of m] wp by simp
  have "lock_inv ?s" using P(1) wp fr
    by (auto simp: lock_inv_def)
  moreover have "alloc_inv ?s" using P(2) wp ma
    by (auto simp: alloc_inv_def)
  moreover have "list_inv ?s ?xs" using P(3) 
    by (auto simp: list_inv_def nx_of_def[symmetric] chain_upd_notin)
  moreover have "shape ?s ?xs" using P(4) wp fr
    by (auto simp: shape_def std_def lastor_def)
  moreover have "sub_inv ?s ?xs" using P(5) wp mw
    by (auto simp: sub_inv_def st_defs intro!: uniq_upd)
  moreover have "wrk_inv ?s ?xs"
    unfolding wrk_inv_def
  proof
    fix n
    show "w_ok (wrk_pc ?s n) (st_of ?s (G n)) (G n \<in> set ?xs)
            (has_cand (sub_pc ?s) (G n)) (has_send (sub_pc ?s) (G n)) (nx_of ?s (G n))"
      using w_okD[OF P(6), of n] P(7) wp mw
      by (cases "wrk_pc s n") (auto simp: has_cand_upd has_send_upd st_defs)
  qed
  ultimately show ?thesis by (simp add: I_def)
qed

lemma I_W_PutTail:
  assumes I: "I s xs" and wp: "wrk_pc s m = W_PutTail"
  shows "I (wgoto m W_PutInc (s\<lparr>tail := G m\<rparr>)) (xs)"
proof -
  note P = I_parts[OF I]
  let ?s = "wgoto m W_PutInc (s\<lparr>tail := G m\<rparr>)"
  let ?xs = "xs"
  have mw: "w_ok (wrk_pc s m) (st_of s (G m)) (G m \<in> set xs) (has_cand (sub_pc s) (G m)) (has_send (sub_pc s) (G m)) (nx_of s (G m))" by (rule w_okD[OF P(6)])
  have ma: "m < nalloc s" using alloc_invD[OF P(2), of m] wp by simp
  have lw: "lock s = Some (Wrk m)" using P(1) wp by (simp add: lock_inv_def)
  have "lock_inv ?s" using P(1) wp
    by (auto simp: lock_inv_def)
  moreover have "alloc_inv ?s" using P(2) wp ma
    by (auto simp: alloc_inv_def)
  moreover have "list_inv ?s ?xs" using P(3) 
    by (auto simp: list_inv_def nx_of_def[symmetric] chain_upd_notin)
  moreover have "shape ?s ?xs" using P(4) wp lw
    by (auto simp: shape_def std_def lastor_def)
  moreover have "sub_inv ?s ?xs" using P(5) wp mw
    by (auto simp: sub_inv_def st_defs intro!: uniq_upd)
  moreover have "wrk_inv ?s ?xs"
    unfolding wrk_inv_def
  proof
    fix n
    show "w_ok (wrk_pc ?s n) (st_of ?s (G n)) (G n \<in> set ?xs)
            (has_cand (sub_pc ?s) (G n)) (has_send (sub_pc ?s) (G n)) (nx_of ?s (G n))"
      using w_okD[OF P(6), of n] P(7) wp mw
      by (cases "wrk_pc s n") (auto simp: has_cand_upd has_send_upd st_defs)
  qed
  ultimately show ?thesis by (simp add: I_def)
qed

lemma I_W_PutInc:
  assumes I: "I s xs" and wp: "wrk_pc s m = W_PutInc"
  shows "I (wgoto m W_PutIdle (s\<lparr>count := count s + 1\<rparr>)) (xs)"
proof -
  note P = I_parts[OF I]
  let ?s = "wgoto m W_PutIdle (s\<lparr>count := count s + 1\<rparr>)"
  let ?xs = "xs"
  have mw: "w_ok (wrk_pc s m) (st_of s (G m)) (G m \<in> set xs) (has_cand (sub_pc s) (G m)) (has_send (sub_pc s) (G m)) (nx_of s (G m))" by (rule w_okD[OF P(6)])
  have ma: "m < nalloc s" using alloc_invD[OF P(2), of m] wp by simp
  have lw: "lock s = Some (Wrk m)" using P(1) wp by (simp add: lock_inv_def)
  have "lock_inv ?s" using P(1) wp
    by (auto simp: lock_inv_def)
  moreover have "alloc_inv ?s" using P(2) wp ma
    by (auto simp: alloc_inv_def)
  moreover have "list_inv ?s ?xs" using P(3) 
    by (auto simp: list_inv_def nx_of_def[symmetric] chain_upd_notin)
  moreover have "shape ?s ?xs" using P(4) wp lw
    by (auto simp: shape_def std_def lastor_def)
  moreover have "sub_inv ?s ?xs" using P(5) wp mw
    by (auto simp: sub_inv_def st_defs intro!: uniq_upd)
  moreover have "wrk_inv ?s ?xs"
    unfolding wrk_inv_def
  proof
    fix n
    show "w_ok (wrk_pc ?s n) (st_of ?s (G n)) (G n \<in> set ?xs)
            (has_cand (sub_pc ?s) (G n)) (has_send (sub_pc ?s) (G n)) (nx_of ?s (G n))"
      using w_okD[OF P(6), of n] P(7) wp mw
      by (cases "wrk_pc s n") (auto simp: has_cand_upd has_send_upd st_defs)
  qed
  ultimately show ?thesis by (simp add: I_def)
qed

lemma I_W_PutIdle:
  assumes I: "I s xs" and wp: "wrk_pc s m = W_PutIdle"
  shows "I (wgoto m W_PutUnlock (set_status (G m) statusIdle s)) (xs)"
proof -
  note P = I_parts[OF I]
  let ?s = "wgoto m W_PutUnlock (set_status (G m) statusIdle s)"
  let ?xs = "xs"
  have mw: "w_ok (wrk_pc s m) (st_of s (G m)) (G m \<in> set xs) (has_cand (sub_pc s) (G m)) (has_send (sub_pc s) (G m)) (nx_of s (G m))" by (rule w_okD[OF P(6)])
  have ma: "m < nalloc s" using alloc_invD[OF P(2), of m] wp by simp
  have lw: "lock s = Some (Wrk m)" using P(1) wp by (simp add: lock_inv_def)
  have "lock_inv ?s" using P(1) wp
    by (auto simp: lock_inv_def)
  moreover have "alloc_inv ?s" using P(2) wp ma
    by (auto simp: alloc_inv_def)
  moreover have "list_inv ?s ?xs" using P(3) 
    by (auto simp: list_inv_def nx_of_def[symmetric] chain_upd_notin)
  moreover have "shape ?s ?xs" using P(4) wp lw
    by (auto simp: shape_def std_def lastor_def)
  moreover have "sub_inv ?s ?xs" using P(5) wp mw
    by (auto simp: sub_inv_def st_defs has_cand_def intro!: uniq_upd)
  moreover have "wrk_inv ?s ?xs"
    unfolding wrk_inv_def
  proof
    fix n
    show "w_ok (wrk_pc ?s n) (st_of ?s (G n)) (G n \<in> set ?xs)
            (has_cand (sub_pc ?s) (G n)) (has_send (sub_pc ?s) (G n)) (nx_of ?s (G n))"
      using w_okD[OF P(6), of n] P(7) wp mw
      by (cases "wrk_pc s n") (auto simp: has_cand_upd has_send_upd st_defs)
  qed
  ultimately show ?thesis by (simp add: I_def)
qed

lemma I_W_PutUnlock:
  assumes I: "I s xs" and wp: "wrk_pc s m = W_PutUnlock"
  shows "I (wgoto m W_Reset (Unlock s)) (xs)"
proof -
  note P = I_parts[OF I]
  let ?s = "wgoto m W_Reset (Unlock s)"
  let ?xs = "xs"
  have mw: "w_ok (wrk_pc s m) (st_of s (G m)) (G m \<in> set xs) (has_cand (sub_pc s) (G m)) (has_send (sub_pc s) (G m)) (nx_of s (G m))" by (rule w_okD[OF P(6)])
  have ma: "m < nalloc s" using alloc_invD[OF P(2), of m] wp by simp
  have lw: "lock s = Some (Wrk m)" using P(1) wp by (simp add: lock_inv_def)
  have inl: "G m \<in> set xs" using P(4) lw wp by (auto simp: shape_def) (metis last_in_set)
  have "lock_inv ?s" using P(1) wp lw
    by (auto simp: lock_inv_def)
  moreover have "alloc_inv ?s" using P(2) wp ma
    by (auto simp: alloc_inv_def)
  moreover have "list_inv ?s ?xs" using P(3) 
    by (auto simp: list_inv_def nx_of_def[symmetric] chain_upd_notin)
  moreover have "shape ?s ?xs" using P(4) wp lw
    by (auto simp: shape_def std_def lastor_def)
  moreover have "sub_inv ?s ?xs" using P(5) wp mw
    by (auto simp: sub_inv_def st_defs intro!: uniq_upd)
  moreover have "wrk_inv ?s ?xs"
    unfolding wrk_inv_def
  proof
    fix n
    show "w_ok (wrk_pc ?s n) (st_of ?s (G n)) (G n \<in> set ?xs)
            (has_cand (sub_pc ?s) (G n)) (has_send (sub_pc ?s) (G n)) (nx_of ?s (G n))"
      using w_okD[OF P(6), of n] P(7) wp mw inl
      by (cases "wrk_pc s n") (auto simp: has_cand_upd has_send_upd st_defs)
  qed
  ultimately show ?thesis by (simp add: I_def)
qed

lemma I_W_PutLink:
  assumes I: "I s xs" and wp: "wrk_pc s m = W_PutLink"
  shows "I (wgoto m W_PutTail (set_nxt (tail s) (Some (G m)) s)) (xs @ [G m])"
proof -
  note P = I_parts[OF I]
  let ?s = "wgoto m W_PutTail (set_nxt (tail s) (Some (G m)) s)"
  let ?xs = "xs @ [G m]"
  have mw: "st_of s (G m) = statusInUse" "G m \<notin> set xs" "\<not> has_cand (sub_pc s) (G m)"
    "nx_of s (G m) = None"
    using w_okD[OF P(6), of m] wp by auto
  have ma: "m < nalloc s" using alloc_invD[OF P(2), of m] wp by simp
  have lw: "lock s = Some (Wrk m)" using P(1) wp by (simp add: lock_inv_def)
  have sh: "tail s = lastor xs" "count s = of_nat (length xs)"
    using P(4) lw wp by (auto simp: shape_def std_def)
  have li: "chain (nx_of s) (nx_of s Head) xs" "distinct xs" "Head \<notin> set xs"
    using P(3) by (auto simp: list_inv_def)
  have ch: "chain ((nx_of s)(tail s := Some (G m))) (((nx_of s)(tail s := Some (G m))) Head) ?xs"
  proof (cases "xs = []")
    case True
    then show ?thesis using sh mw by (simp add: lastor_def)
  next
    case False
    then have "last xs \<noteq> Head" using li(3) by (metis last_in_set)
    with False have t: "tail s = last xs" "tail s \<noteq> Head" using sh li by (auto simp: lastor_def)
    have "chain ((nx_of s)(last xs := Some (G m))) (nx_of s Head) ?xs"
      using chain_snoc[OF li(1) False li(2) mw(2) mw(4)] .
    then show ?thesis using t by simp
  qed
  have "lock_inv ?s" using P(1) wp
    by (auto simp: lock_inv_def)
  moreover have "alloc_inv ?s" using P(2) wp ma
    by (auto simp: alloc_inv_def)
  moreover have "list_inv ?s ?xs" using P(3) ch mw ma
    by (auto simp: list_inv_def)
  moreover have "shape ?s ?xs" using P(4) wp lw
    by (auto simp: shape_def std_def lastor_def)
  moreover have "sub_inv ?s ?xs" using P(5) wp mw
    by (auto simp: sub_inv_def has_cand_def)
  moreover have "wrk_inv ?s ?xs"
    unfolding wrk_inv_def
  proof
    fix n
    have tl: "tail s = G n \<Longrightarrow> G n \<in> set xs" using sh(1) last_in_set[of xs]
      by (cases "xs = []") (auto simp: lastor_def)
    show "w_ok (wrk_pc ?s n) (st_of ?s (G n)) (G n \<in> set ?xs)
            (has_cand (sub_pc ?s) (G n)) (has_send (sub_pc ?s) (G n)) (nx_of ?s (G n))"
      using w_okD[OF P(6), of n] P(7) wp mw tl
      by (cases "wrk_pc s n") (auto simp: has_cand_upd has_send_upd st_defs)
  qed
  ultimately show ?thesis by (simp add: I_def)
qed

lemma inv_sub_step: assumes "inv s" shows "inv (sub_step i s)"
proof -
  from assms obtain xs where I: "I s xs" by (auto simp: inv_def)
  show ?thesis
  proof (cases "sub_pc s i")
    case S_None
    then show ?thesis using assms by (simp add: sub_step_def)
  next
    case S_Lock
    then show ?thesis using assms I_S_Lock[OF I S_Lock]
      by (auto simp: sub_step_def inv_def)
  next
    case S_Test
    then show ?thesis using I_S_Test_None[OF I S_Test] I_S_Test_Some[OF I S_Test]
      by (auto simp: sub_step_def inv_def split: option.splits)
  next
    case S_UnlockA
    then show ?thesis using I_S_UnlockA[OF I S_UnlockA]
      by (auto simp: sub_step_def inv_def)
  next
    case S_Alloc
    then show ?thesis using I_S_Alloc[OF I S_Alloc]
      by (auto simp: sub_step_def inv_def split: prod.splits) (metis fst_conv snd_conv alloc_simps(1))
  next
    case (S_Relink r)
    then show ?thesis using I_S_Relink[OF I S_Relink]
      by (auto simp: sub_step_def inv_def)
  next
    case (S_TailFix r)
    then show ?thesis using I_S_TailFix[OF I S_TailFix]
      by (auto simp: sub_step_def inv_def)
  next
    case (S_Dec r)
    then show ?thesis using I_S_Dec[OF I S_Dec]
      by (auto simp: sub_step_def inv_def)
  next
    case (S_Unlock r)
    then show ?thesis using I_S_Unlock[OF I S_Unlock]
      by (auto simp: sub_step_def inv_def)
  next
    case (S_Clear r)
    then show ?thesis using I_S_Clear[OF I S_Clear]
      by (auto simp: sub_step_def inv_def)
  next
    case (S_CAS r)
    then show ?thesis using I_S_CAS_ok[OF I S_CAS] I_S_CAS_fail[OF I S_CAS]
      by (auto simp: sub_step_def inv_def cas_status_eq)
  next
    case (S_Load r)
    then show ?thesis using I_S_Load[OF I S_Load]
      by (auto simp: sub_step_def inv_def)
  next
    case (S_MarkDead r)
    then show ?thesis using I_S_MarkDead[OF I S_MarkDead]
      by (auto simp: sub_step_def inv_def)
  next
    case (S_Send r)
    then show ?thesis using assms by (simp add: sub_step_def)
  next
    case S_Done
    then show ?thesis using assms by (simp add: sub_step_def)
  qed
qed

lemma inv_wrk_step: assumes "inv s" shows "inv (wrk_step m s)"
proof -
  from assms obtain xs where I: "I s xs" by (auto simp: inv_def)
  show ?thesis
  proof (cases "wrk_pc s m")
    case W_None
    then show ?thesis using assms by (simp add: wrk_step_def)
  next
    case W_Start
    then show ?thesis using I_W_Start[OF I W_Start] by (auto simp: wrk_step_def inv_def)
  next
    case W_Select
    then show ?thesis using assms by (simp add: wrk_step_def)
  next
    case W_Timer
    then show ?thesis using I_W_Timer_ok[OF I W_Timer] I_W_Timer_fail[OF I W_Timer]
      by (auto simp: wrk_step_def inv_def cas_status_eq)
  next
    case (W_Work f)
    then show ?thesis using I_W_Work[OF I W_Work] by (auto simp: wrk_step_def inv_def)
  next
    case W_PutClear
    then show ?thesis using I_W_PutClear[OF I W_PutClear] by (auto simp: wrk_step_def inv_def)
  next
    case W_PutLock
    then show ?thesis using assms I_W_PutLock[OF I W_PutLock]
      by (auto simp: wrk_step_def inv_def)
  next
    case W_PutLink
    then show ?thesis using I_W_PutLink[OF I W_PutLink] by (auto simp: wrk_step_def inv_def)
  next
    case W_PutTail
    then show ?thesis using I_W_PutTail[OF I W_PutTail] by (auto simp: wrk_step_def inv_def)
  next
    case W_PutInc
    then show ?thesis using I_W_PutInc[OF I W_PutInc] by (auto simp: wrk_step_def inv_def)
  next
    case W_PutIdle
    then show ?thesis using I_W_PutIdle[OF I W_PutIdle] by (auto simp: wrk_step_def inv_def)
  next
    case W_PutUnlock
    then show ?thesis using I_W_PutUnlock[OF I W_PutUnlock] by (auto simp: wrk_step_def inv_def)
  next
    case W_Reset
    then show ?thesis using I_W_Reset[OF I W_Reset] by (auto simp: wrk_step_def inv_def)
  next
    case W_Exit
    then show ?thesis using assms by (simp add: wrk_step_def)
  qed
qed

lemma inv_step: assumes "inv s" shows "inv (step e s)"
proof (cases e)
  case (Submit f)
  then show ?thesis using assms I_submit by (auto simp: inv_def)
next
  case (SubStep i)
  then show ?thesis using assms inv_sub_step by simp
next
  case (WrkStep n)
  then show ?thesis using assms inv_wrk_step by simp
next
  case (TimerFire n)
  then show ?thesis using assms I_timer by (auto simp: inv_def timer_fire_def)
next
  case (Handoff i n)
  from assms obtain xs where I: "I s xs" by (auto simp: inv_def)
  show ?thesis
  proof (cases "\<exists>r. sub_pc s i = S_Send r \<and> wrk_pc s n = W_Select \<and> ch (gs s r) \<noteq> None
                  \<and> ch (gs s r) = ch (gs s (G n))")
    case True
    then obtain r where r: "sub_pc s i = S_Send r" "wrk_pc s n = W_Select"
      "ch (gs s r) \<noteq> None" "ch (gs s r) = ch (gs s (G n))" by blast
    have "I (handoff i n s) xs" using I_handoff[OF I r] r by (simp add: handoff_def)
    then show ?thesis using Handoff by (auto simp: inv_def)
  next
    case False
    then have "handoff i n s = s" by (auto simp: handoff_def split: spc.splits)
    then show ?thesis using Handoff assms by simp
  qed
qed

lemma inv_exec: "inv s \<Longrightarrow> inv (exec es s)"
  by (induction es arbitrary: s) (auto simp: exec_def inv_step)

theorem inv_reach: "inv (exec es (New d))"
  by (rule inv_exec) (auto simp: inv_def intro: I_New)

section \<open>Reachable states\<close>

lemma exec_simps: "exec [] s = s" "exec (e # es) s = exec es (step e s)"
  by (simp_all add: exec_def)

lemma exec_append: "exec (es @ es') s = exec es' (exec es s)"
  by (simp add: exec_def)

lemma exec_snoc: "exec (es @ [e]) s = step e (exec es s)"
  by (simp add: exec_def)

lemma reach_I: "\<exists>xs. I (exec es (New d)) xs"
  using inv_reach[of es d] by (simp add: inv_def)

lemma length_le_alloc:
  assumes "distinct xs" and "\<forall>p \<in> set xs. \<exists>n. n < k \<and> p = G n"
  shows "length xs \<le> k"
proof -
  have "set xs \<subseteq> G ` {..<k}" using assms(2) by auto
  then have "card (set xs) \<le> card (G ` {..<k})" by (intro card_mono) auto
  also have "\<dots> \<le> k" using card_image_le[of "{..<k}" G] by simp
  finally show ?thesis using assms(1) by (simp add: distinct_card)
qed

lemma I_free_list: assumes "I s xs" shows "free_list s = xs"
proof -
  note P = I_parts[OF assms]
  have "length xs \<le> nalloc s" using P(3) by (intro length_le_alloc) (auto simp: list_inv_def)
  then show ?thesis using P(3) by (simp add: free_list_def list_inv_def walk_chain)
qed

lemma nalloc_step: "nalloc s \<le> nalloc (step e s)"
  by (cases e)
    (auto simp: sub_step_def wrk_step_def handoff_def timer_fire_def cas_status_eq
      case_prod_beta split: spc.splits wpc.splits option.splits)

lemma nalloc_exec: "nalloc s \<le> nalloc (exec es s)"
proof (induction es arbitrary: s)
  case Nil
  then show ?case by (simp add: exec_simps)
next
  case (Cons e es)
  then show ?case using nalloc_step[of s e] by (simp add: exec_simps) (meson le_trans)
qed

lemma I_status_step:
  assumes I: "I s xs" and n: "n < nalloc s"
  shows "st_of (step e s) (G n) = st_of s (G n) \<or> edge (st_of s (G n)) (st_of (step e s) (G n))"
proof (cases e)
  case (Submit f)
  then show ?thesis by simp
next
  case (SubStep i)
  show ?thesis
  proof (cases "sub_pc s i")
    case (S_MarkDead r)
    have "st_ok (sub_pc s i) (st_of s r)" using sub_invD[OF I_parts(5)[OF I], of i r] S_MarkDead by simp
    then show ?thesis using SubStep S_MarkDead by (auto simp: sub_step_def edge_def)
  qed (use SubStep n in \<open>auto simp: sub_step_def cas_status_eq edge_def case_prod_beta split: option.splits\<close>)
next
  case (WrkStep m)
  show ?thesis
  proof (cases "wrk_pc s m")
    case W_PutIdle
    have "st_of s (G m) = statusInUse" using w_okD[OF I_parts(6)[OF I], of m] W_PutIdle by simp
    then show ?thesis using WrkStep W_PutIdle by (auto simp: wrk_step_def edge_def)
  qed (use WrkStep n in \<open>auto simp: wrk_step_def cas_status_eq edge_def\<close>)
next
  case (TimerFire m)
  then show ?thesis by (simp add: timer_fire_def)
next
  case (Handoff i m)
  then show ?thesis by (auto simp: handoff_def split: spc.splits)
qed

lemmas eval_defs = exec_simps sub_step_def wrk_step_def handoff_def submit_def timer_fire_def
  alloc_def cas_status_def set_nxt_def set_status_def Lock_def Unlock_def sgoto_def wgoto_def
  get_tailfix_def New_def st_defs free_list_def nx_of_def claim_fresh_def serve_def
  pop_first_def one_job_def timer_pending_def timed_out_def timer_lost_def

section \<open>The timer of a worker\<close>

lemma exit_step:
  assumes "wrk_pc s n = W_Exit" "n < nalloc s"
  shows "wrk_pc (step e s) n = W_Exit \<and> executed_by n (step e s) = executed_by n s"
  using assms
  by (cases e)
    (auto simp: executed_by_def sub_step_def wrk_step_def handoff_def timer_fire_def
      cas_status_eq case_prod_beta split: spc.splits wpc.splits option.splits)

lemma exit_exec:
  "wrk_pc s n = W_Exit \<Longrightarrow> n < nalloc s \<Longrightarrow>
   wrk_pc (exec es s) n = W_Exit \<and> executed_by n (exec es s) = executed_by n s"
proof (induction es arbitrary: s)
  case Nil
  then show ?case by (simp add: exec_simps)
next
  case (Cons e es)
  have a: "wrk_pc (step e s) n = W_Exit" "executed_by n (step e s) = executed_by n s"
    using exit_step[OF Cons.prems] by auto
  have b: "n < nalloc (step e s)" using Cons.prems(2) nalloc_step[of s e] by simp
  show ?case using Cons.IH[OF a(1) b] a(2) by (simp add: exec_simps)
qed

text \<open>
  C7. In a state of the pool where the timer channel of worker \<open>n\<close> has delivered
  (\<open>W_Timer\<close>): if the status is Idle, the compare-and-swap stores Dying and the loop
  returns; in every continuation the worker stays returned and executes nothing more.
  If the status is not Idle, nothing is written, the worker resets its timer and is
  back at its select, and the submitter that claimed it hands its work over there.
\<close>

theorem timer_elapsed:
  assumes s: "s = exec es (New d)" and pc: "wrk_pc s n = W_Timer"
  shows "(status (gs s (G n)) = statusIdle \<longrightarrow>
            status (gs (wrk_step n s) (G n)) = statusDying \<and>
            wrk_pc (wrk_step n s) n = W_Exit \<and>
            (\<forall>es'. wrk_pc (exec es' (wrk_step n s)) n = W_Exit \<and>
                   executed_by n (exec es' (wrk_step n s)) = executed_by n s)) \<and>
         (status (gs s (G n)) \<noteq> statusIdle \<longrightarrow>
            wrk_step n s = wgoto n W_Reset s \<and>
            wrk_step n (wrk_step n s) = wgoto n W_Select s \<and>
            (\<exists>i. sub_pc s i = S_Send (G n) \<and>
                 handoff i n (wgoto n W_Select s) =
                   sgoto i S_Done (wgoto n (W_Work (sub_f s i)) s)))"
proof -
  obtain xs where I: "I s xs" using reach_I s by blast
  note P = I_parts[OF I]
  have na: "n < nalloc s" using alloc_invD[OF P(2), of n] pc by simp
  have w: "(st_of s (G n) = statusIdle \<and> (G n \<in> set xs \<or> has_cand (sub_pc s) (G n))) \<or>
           (st_of s (G n) = statusInUse \<and> has_send (sub_pc s) (G n))"
    using w_okD[OF P(6), of n] pc by simp
  have c: "ch (gs s (G n)) = Some n" using P(2) na by (simp add: alloc_inv_def ch_of_def)
  show ?thesis
  proof (intro conjI impI)
    assume v: "status (gs s (G n)) = statusIdle"
    show "status (gs (wrk_step n s) (G n)) = statusDying"
      using pc v by (simp add: wrk_step_def cas_status_def set_status_def wgoto_def)
    have e: "wrk_pc (wrk_step n s) n = W_Exit"
      using pc v by (simp add: wrk_step_def cas_status_def)
    then show "wrk_pc (wrk_step n s) n = W_Exit" .
    have l: "executed_by n (wrk_step n s) = executed_by n s"
      using pc v by (simp add: wrk_step_def cas_status_def executed_by_def set_status_def wgoto_def)
    have n': "n < nalloc (wrk_step n s)"
      using na pc v by (simp add: wrk_step_def cas_status_def)
    show "\<forall>es'. wrk_pc (exec es' (wrk_step n s)) n = W_Exit \<and>
                executed_by n (exec es' (wrk_step n s)) = executed_by n s"
      using exit_exec[OF e n'] l by simp
  next
    assume v: "status (gs s (G n)) \<noteq> statusIdle"
    show r: "wrk_step n s = wgoto n W_Reset s"
      using pc v by (simp add: wrk_step_def cas_status_def)
    show "wrk_step n (wrk_step n s) = wgoto n W_Select s"
      unfolding r by (simp add: wrk_step_def wgoto_def)
    from w v obtain i where i: "sub_pc s i = S_Send (G n)"
      by (auto simp: st_of_def has_send_def)
    have "handoff i n (wgoto n W_Select s) = sgoto i S_Done (wgoto n (W_Work (sub_f s i)) s)"
      using i c by (simp add: handoff_def wgoto_def sgoto_def)
    then show "\<exists>i. sub_pc s i = S_Send (G n) \<and>
                 handoff i n (wgoto n W_Select s) =
                   sgoto i S_Done (wgoto n (W_Work (sub_f s i)) s)"
      using i by blast
  qed
qed

theorem timer_elapsed_witness:
  "wrk_pc (exec timer_pending (New 0)) 0 = W_Timer \<and>
   status (gs (exec timer_pending (New 0)) (G 0)) = statusIdle \<and>
   status (gs (wrk_step 0 (exec timer_pending (New 0))) (G 0)) = statusDying \<and>
   wrk_pc (exec [Submit 9, SubStep 1, WrkStep 0] (wrk_step 0 (exec timer_pending (New 0)))) 0 = W_Exit \<and>
   wrk_pc (exec timer_lost (New 0)) 0 = W_Timer \<and>
   status (gs (exec timer_lost (New 0)) (G 0)) = statusInUse \<and>
   wrk_step 0 (wrk_step 0 (exec timer_lost (New 0))) = wgoto 0 W_Select (exec timer_lost (New 0))"
proof -
  have a: "wrk_pc (exec timer_pending (New 0)) 0 = W_Timer"
    by (simp add: eval_defs)
  have b: "status (gs (exec timer_pending (New 0)) (G 0)) = statusIdle"
    by (simp add: eval_defs)
  have c: "wrk_pc (exec timer_lost (New 0)) 0 = W_Timer"
    by (simp add: eval_defs)
  have d: "status (gs (exec timer_lost (New 0)) (G 0)) = statusInUse"
    by (simp add: eval_defs)
  have d': "status (gs (exec timer_lost (New 0)) (G 0)) \<noteq> statusIdle"
    unfolding d by (simp add: st_defs)
  note T1 = timer_elapsed[OF refl a]
  note T2 = timer_elapsed[OF refl c]
  have e1: "status (gs (wrk_step 0 (exec timer_pending (New 0))) (G 0)) = statusDying"
    using T1 b by blast
  have e2: "wrk_pc (exec [Submit 9, SubStep 1, WrkStep 0]
              (wrk_step 0 (exec timer_pending (New 0)))) 0 = W_Exit"
    using T1 b by blast
  have e3: "wrk_step 0 (wrk_step 0 (exec timer_lost (New 0))) =
            wgoto 0 W_Select (exec timer_lost (New 0))"
    using T2 d' by blast
  show ?thesis by (intro conjI a b c d e1 e2 e3)
qed

section \<open>The status word\<close>

text \<open>A worker whose status is Dead is not linked and is held by no submitter.\<close>

lemma I_dead:
  assumes I: "I s xs" and n: "n < nalloc s" and v: "st_of s (G n) = statusDead"
  shows "wrk_pc s n = W_Exit \<and> G n \<notin> set xs \<and> \<not> has_cand (sub_pc s) (G n)"
proof -
  note P = I_parts[OF I]
  have "wrk_pc s n \<noteq> W_None" using P(2) n by (simp add: alloc_inv_def)
  then show ?thesis using w_okD[OF P(6), of n] v
    by (cases "wrk_pc s n") (auto simp: st_defs)
qed

lemma dead_stays:
  assumes "n < nalloc (exec es (New d))"
    and "status (gs (exec es (New d)) (G n)) = statusDead"
  shows "status (gs (exec (es @ es') (New d)) (G n)) = statusDead"
proof (induction es' rule: rev_induct)
  case Nil
  then show ?case using assms by simp
next
  case (snoc e es')
  obtain xs where I: "I (exec (es @ es') (New d)) xs" using reach_I by blast
  have n': "n < nalloc (exec (es @ es') (New d))"
    using assms(1) nalloc_exec[of "exec es (New d)" es'] by (simp add: exec_append)
  have "exec (es @ es' @ [e]) (New d) = step e (exec (es @ es') (New d))"
    using exec_snoc[of "es @ es'" e] by simp
  then show ?case
    using I_status_step[OF I n', of e] snoc.IH
    by (auto simp: st_of_def edge_def st_defs)
qed




section \<open>The members of the free list\<close>

text \<open>
  C2 (as amended). In every state of the pool the nodes linked from the sentinel form
  a nil-terminated list without repetition. A linked worker is allocated and its
  status is Idle or Dying (a worker whose timer fired stays linked until a submitter
  pops and discards it), or it is InUse and is the worker that holds the mutex inside
  \<open>put\<close>, between linking itself and storing Idle; a Dead worker is never linked.
  A worker whose status is Idle and which is not linked is held by a submitter that
  took it from \<open>get\<close> and has not yet executed its compare-and-swap.
\<close>

theorem free_list_members:
  assumes s: "s = exec es (New d)"
  shows "chain (nx_of s) (nx_of s Head) (free_list s) \<and> distinct (free_list s) \<and>
         Head \<notin> set (free_list s) \<and>
         (G n \<in> set (free_list s) \<longrightarrow>
            n < nalloc s \<and>
            (status (gs s (G n)) = statusIdle \<or> status (gs s (G n)) = statusDying \<or>
             (status (gs s (G n)) = statusInUse \<and> lock s = Some (Wrk n) \<and>
              wrk_pc s n \<in> {W_PutTail, W_PutInc, W_PutIdle}))) \<and>
         (n < nalloc s \<and> status (gs s (G n)) = statusIdle \<longrightarrow>
            G n \<in> set (free_list s) \<or>
            (\<exists>i. sub_pc s i \<in> {S_TailFix (G n), S_Dec (G n), S_Unlock (G n),
                                S_Clear (G n), S_CAS (G n)}))"
proof -
  obtain xs where I: "I s xs" using reach_I s by blast
  note P = I_parts[OF I]
  have fl: "free_list s = xs" by (rule I_free_list[OF I])
  have a: "chain (nx_of s) (nx_of s Head) xs" "distinct xs" "Head \<notin> set xs"
    using P(3) by (auto simp: list_inv_def)
  have b: "n < nalloc s \<and>
            (st_of s (G n) = statusIdle \<or> st_of s (G n) = statusDying \<or>
             (st_of s (G n) = statusInUse \<and> lock s = Some (Wrk n) \<and>
              wrk_pc s n \<in> {W_PutTail, W_PutInc, W_PutIdle}))" if m: "G n \<in> set xs"
  proof -
    have na: "n < nalloc s" using P(3) m by (auto simp: list_inv_def)
    show ?thesis
    proof (cases "crit_w (wrk_pc s n)")
      case False
      then show ?thesis using list_status[OF I m] na by blast
    next
      case True
      then have lk: "lock s = Some (Wrk n)" using P(1) by (simp add: lock_inv_def)
      show ?thesis using w_okD[OF P(6), of n] True m na lk
        by (cases "wrk_pc s n") auto
    qed
  qed
  have c: "G n \<in> set xs \<or>
            (\<exists>i. sub_pc s i \<in> {S_TailFix (G n), S_Dec (G n), S_Unlock (G n),
                                S_Clear (G n), S_CAS (G n)})"
    if na: "n < nalloc s" and v: "st_of s (G n) = statusIdle"
  proof (cases "G n \<in> set xs")
    case True
    then show ?thesis by simp
  next
    case False
    have nn: "wrk_pc s n \<noteq> W_None" using P(2) na by (simp add: alloc_inv_def)
    have pu: "wrk_pc s n \<noteq> W_PutUnlock"
    proof
      assume u: "wrk_pc s n = W_PutUnlock"
      then have "lock s = Some (Wrk n)" using P(1) by (simp add: lock_inv_def)
      then have "xs \<noteq> []" "last xs = G n" using P(4) u by (auto simp: shape_def)
      then show False using False last_in_set[of xs] by simp
    qed
    have "has_cand (sub_pc s) (G n)"
      using w_okD[OF P(6), of n] v False nn pu
      by (cases "wrk_pc s n") (auto simp: st_defs)
    then obtain i where i: "cand (sub_pc s i) = Some (G n)" by (auto simp: has_cand_def)
    have "st_ok (sub_pc s i) (st_of s (G n))" using sub_invD[OF P(5) i] by simp
    then have "sub_pc s i \<in> {S_TailFix (G n), S_Dec (G n), S_Unlock (G n),
                                S_Clear (G n), S_CAS (G n)}"
      using i v by (cases "sub_pc s i") (auto simp: st_defs)
    then show ?thesis by blast
  qed
  show ?thesis unfolding fl using a b c by (simp add: st_of_def)
qed

text \<open>
  The claim as stated fails: after one job and the idle timeout, the worker has
  status Dying and is still linked in the free list.
\<close>

theorem dying_worker_linked:
  "G 0 \<in> set (free_list (exec timed_out (New 0))) \<and>
   status (gs (exec timed_out (New 0)) (G 0)) = statusDying \<and>
   wrk_pc (exec timed_out (New 0)) 0 = W_Exit"
  by (simp add: eval_defs)

theorem free_list_members_witness:
  "G 0 \<in> set (free_list (exec one_job (New 0))) \<and>
   0 < nalloc (exec one_job (New 0)) \<and>
   status (gs (exec one_job (New 0)) (G 0)) = statusIdle \<and>
   distinct (free_list (exec one_job (New 0)))"
proof -
  have a: "G 0 \<in> set (free_list (exec one_job (New 0)))" by (simp add: eval_defs)
  have b: "status (gs (exec one_job (New 0)) (G 0)) = statusIdle" by (simp add: eval_defs)
  note T = free_list_members[OF refl, of one_job 0 0]
  have c: "0 < nalloc (exec one_job (New 0))" using T a by blast
  have d: "distinct (free_list (exec one_job (New 0)))" using T by blast
  show ?thesis by (intro conjI a b c d)
qed

section \<open>The claim loop of Go\<close>

lemma dead_never_returned:
  assumes n: "n < nalloc (exec es (New d))"
    and v: "status (gs (exec es (New d)) (G n)) = statusDead"
  shows "status (gs (exec (es @ es') (New d)) (G n)) = statusDead \<and>
         G n \<notin> set (free_list (exec (es @ es') (New d))) \<and>
         cand (sub_pc (exec (es @ es') (New d)) j) \<noteq> Some (G n) \<and>
         sub_pc (exec (es @ es') (New d)) j \<noteq> S_Relink (G n)"
proof -
  let ?s = "exec (es @ es') (New d)"
  obtain xs where I: "I ?s xs" using reach_I by blast
  note P = I_parts[OF I]
  have n': "n < nalloc ?s"
    using n nalloc_exec[of "exec es (New d)" es'] by (simp add: exec_append)
  have v': "status (gs ?s (G n)) = statusDead" by (rule dead_stays[OF n v])
  then have D: "G n \<notin> set xs" "\<not> has_cand (sub_pc ?s) (G n)"
    using I_dead[OF I n'] by (auto simp: st_of_def)
  have r: "sub_pc ?s j \<noteq> S_Relink (G n)"
  proof
    assume pc: "sub_pc ?s j = S_Relink (G n)"
    then have "lock ?s = Some (Sub j)" using P(1) by (simp add: lock_inv_def)
    then have "xs \<noteq> []" "hd xs = G n" using P(4) pc by (auto simp: shape_def)
    then show False using D(1) hd_in_set[of xs] by simp
  qed
  show ?thesis using v' D r I_free_list[OF I] by (auto simp: has_cand_def)
qed

lemma send_facts:
  assumes I: "I s xs" and pc: "sub_pc s i = S_Send r"
  shows "\<exists>k. r = G k \<and> ch_of s (G k) = Some k \<and> st_of s (G k) = statusInUse \<and>
             wrk_pc s k \<in> {W_Start, W_Select, W_Timer, W_Reset}"
proof -
  note P = I_parts[OF I]
  from sub_invD[OF P(5), of i r] pc obtain k where k: "r = G k" "k < nalloc s"
    and v: "st_of s r = statusInUse" by auto
  have hc: "has_cand (sub_pc s) (G k)" using pc k by (auto simp: has_cand_def intro: exI[of _ i])
  have nn: "wrk_pc s k \<noteq> W_None" using P(2) k by (simp add: alloc_inv_def)
  have w: "wrk_pc s k \<in> {W_Start, W_Select, W_Timer, W_Reset}"
    using w_okD[OF P(6), of k] v k hc nn by (cases "wrk_pc s k") (auto simp: st_defs)
  have "ch_of s (G k) = Some k" using P(2) k by (simp add: alloc_inv_def)
  then show ?thesis using k v w by auto
qed

text \<open>
  C8. In a state of the pool, for the candidate \<open>r\<close> that \<open>get\<close> returned to
  submitter \<open>i\<close>:
  \<^item> if the status of \<open>r\<close> is Dying, the compare-and-swap fails, the load sees Dying,
    the store writes Dead and the submitter is back at the call of \<open>get\<close>;
  \<^item> Dead is terminal: in every continuation the status stays Dead, the worker is
    never linked, never the node \<open>get\<close> is about to return, never a candidate again
    (so the retry claims a different worker);
  \<^item> if the status of \<open>r\<close> is Idle, the compare-and-swap stores InUse and the
    submitter is at the send;
  \<^item> a submitter at the send holds an allocated worker with a channel, status InUse,
    whose loop has not returned and is at or on its way to the select;
  \<^item> the send completes when that worker is at its select: the submitter is done and
    the worker holds the work, which it has not yet run (the log is unchanged).
  The model has no failing outcome for a submitter: \<open>Go\<close> has no error return.
\<close>

theorem submit_claim_loop:
  assumes s: "s = exec es (New d)"
  shows "(sub_pc s i = S_CAS r \<and> status (gs s r) = statusDying \<longrightarrow>
            status (gs (exec [SubStep i, SubStep i, SubStep i] s) r) = statusDead \<and>
            sub_pc (exec [SubStep i, SubStep i, SubStep i] s) i = S_Lock) \<and>
         (n < nalloc s \<and> status (gs s (G n)) = statusDead \<longrightarrow>
            (\<forall>es' j. status (gs (exec es' s) (G n)) = statusDead \<and>
                     G n \<notin> set (free_list (exec es' s)) \<and>
                     cand (sub_pc (exec es' s) j) \<noteq> Some (G n) \<and>
                     sub_pc (exec es' s) j \<noteq> S_Relink (G n))) \<and>
         (sub_pc s i = S_CAS r \<and> status (gs s r) = statusIdle \<longrightarrow>
            sub_step i s = sgoto i (S_Send r) (set_status r statusInUse s)) \<and>
         (sub_pc s i = S_Send r \<longrightarrow>
            (\<exists>k. r = G k \<and> k < nalloc s \<and> ch (gs s r) = Some k \<and>
                 status (gs s r) = statusInUse \<and>
                 wrk_pc s k \<in> {W_Start, W_Select, W_Timer, W_Reset})) \<and>
         (sub_pc s i = S_Send (G n) \<and> wrk_pc s n = W_Select \<longrightarrow>
            handoff i n s = sgoto i S_Done (wgoto n (W_Work (sub_f s i)) s) \<and>
            log (handoff i n s) = log s)"
proof -
  obtain xs where I: "I s xs" using reach_I s by blast
  note P = I_parts[OF I]
  have a: "status (gs (exec [SubStep i, SubStep i, SubStep i] s) r) = statusDead \<and>
            sub_pc (exec [SubStep i, SubStep i, SubStep i] s) i = S_Lock"
    if "sub_pc s i = S_CAS r" "status (gs s r) = statusDying"
    using that
    by (simp add: exec_simps sub_step_def cas_status_def sgoto_def set_status_def st_defs)
  have b: "\<forall>es' j. status (gs (exec es' s) (G n)) = statusDead \<and>
                     G n \<notin> set (free_list (exec es' s)) \<and>
                     cand (sub_pc (exec es' s) j) \<noteq> Some (G n) \<and>
                     sub_pc (exec es' s) j \<noteq> S_Relink (G n)"
    if "n < nalloc s" "status (gs s (G n)) = statusDead"
    using dead_never_returned[of n es d] that unfolding s exec_append by blast
  have c: "sub_step i s = sgoto i (S_Send r) (set_status r statusInUse s)"
    if "sub_pc s i = S_CAS r" "status (gs s r) = statusIdle"
    using that by (simp add: sub_step_def cas_status_def)
  have d: "\<exists>k. r = G k \<and> k < nalloc s \<and> ch (gs s r) = Some k \<and>
                 status (gs s r) = statusInUse \<and>
                 wrk_pc s k \<in> {W_Start, W_Select, W_Timer, W_Reset}"
    if pc: "sub_pc s i = S_Send r" for r
  proof -
    from send_facts[OF I pc] obtain k where k: "r = G k" "ch_of s (G k) = Some k"
      "st_of s (G k) = statusInUse" "wrk_pc s k \<in> {W_Start, W_Select, W_Timer, W_Reset}"
      by blast
    have "k < nalloc s" using alloc_invD[OF P(2), of k] k(4) by auto
    then show ?thesis using k by (auto simp: st_of_def ch_of_def)
  qed
  have e: "handoff i n s = sgoto i S_Done (wgoto n (W_Work (sub_f s i)) s) \<and>
            log (handoff i n s) = log s"
    if pc: "sub_pc s i = S_Send (G n)" and w: "wrk_pc s n = W_Select"
  proof -
    from d[OF pc] have "ch (gs s (G n)) \<noteq> None" by auto
    then show ?thesis using pc w by (simp add: handoff_def)
  qed
  show ?thesis using a b c d e by blast
qed

theorem submit_claim_loop_witness:
  "sub_pc (exec pop_dying (New 0)) 1 = S_CAS (G 0) \<and>
   status (gs (exec pop_dying (New 0)) (G 0)) = statusDying \<and>
   status (gs (exec [SubStep 1, SubStep 1, SubStep 1] (exec pop_dying (New 0))) (G 0)) =
     statusDead \<and>
   sub_pc (exec [SubStep 1, SubStep 1, SubStep 1] (exec pop_dying (New 0))) 1 = S_Lock"
proof -
  have a: "sub_pc (exec pop_dying (New 0)) 1 = S_CAS (G 0)"
    by (simp add: pop_dying_def eval_defs)
  have b: "status (gs (exec pop_dying (New 0)) (G 0)) = statusDying"
    by (simp add: pop_dying_def eval_defs)
  note T = submit_claim_loop[OF refl, of pop_dying 0 1 "G 0"]
  have c: "status (gs (exec [SubStep 1, SubStep 1, SubStep 1] (exec pop_dying (New 0))) (G 0)) =
     statusDead" using T a b by blast
  have d: "sub_pc (exec [SubStep 1, SubStep 1, SubStep 1] (exec pop_dying (New 0))) 1 = S_Lock"
    using T a b by blast
  show ?thesis by (intro conjI a b c d)
qed

section \<open>alloc\<close>

lemma I_tail_alloc:
  assumes I: "I s xs"
  shows "tail s = Head \<or> (\<exists>n. n < nalloc s \<and> tail s = G n)"
proof -
  note P = I_parts[OF I]
  have la: "xs \<noteq> [] \<Longrightarrow> \<exists>n. n < nalloc s \<and> last xs = G n"
    using P(3) last_in_set[of xs] by (auto simp: list_inv_def)
  have bl: "butlast xs \<noteq> [] \<Longrightarrow> \<exists>n. n < nalloc s \<and> last (butlast xs) = G n"
    using P(3) last_in_set[of "butlast xs"] in_set_butlastD[of _ xs]
    by (auto simp: list_inv_def)
  show ?thesis
  proof (cases "lock s")
    case None
    then show ?thesis using P(4) la by (auto simp: shape_def std_def lastor_def)
  next
    case (Some t)
    show ?thesis
    proof (cases t)
      case (Sub i)
      then have lk: "lock s = Some (Sub i)" using Some by simp
      then have sh: "shape_s (sub_pc s i) (tail s) (count s) xs" using P(4) by (simp add: shape_def)
      show ?thesis
      proof (cases "sub_pc s i")
        case (S_TailFix r)
        then show ?thesis using sh la sub_invD[OF P(5), of i r] by auto
      qed (use sh la in \<open>auto simp: std_def lastor_def\<close>)
    next
      case (Wrk m)
      then have lk: "lock s = Some (Wrk m)" using Some by simp
      then have sh: "shape_w (wrk_pc s m) m (tail s) (count s) xs" using P(4) by (simp add: shape_def)
      have cw: "crit_w (wrk_pc s m)" using P(1) lk unfolding lock_inv_def by blast
      then have "wrk_pc s m \<noteq> W_None" by (cases "wrk_pc s m") auto
      then have ma: "m < nalloc s" by (rule alloc_invD[OF P(2)])
      show ?thesis using sh la bl ma cw
        by (cases "wrk_pc s m") (auto simp: std_def lastor_def)
    qed
  qed
qed

text \<open>
  C6. In every state of the pool, \<open>alloc\<close> returns a new object whose status is Idle,
  whose channel has been made, whose \<open>next\<close> is nil and whose worker has just been
  started (it did not exist before). The object is not linked: the free list, \<open>tail\<close>
  and \<open>count\<close> are as before, \<open>tail\<close> is not the new object, and no other object is
  touched.
\<close>

theorem alloc_returns_fresh_idle:
  assumes s: "s = exec es (New d)"
  shows "fst (alloc s) = G (nalloc s) \<and>
         status (gs (snd (alloc s)) (G (nalloc s))) = statusIdle \<and>
         ch (gs (snd (alloc s)) (G (nalloc s))) = Some (nalloc s) \<and>
         pool (gs (snd (alloc s)) (G (nalloc s))) = Some ThePool \<and>
         nxt (gs (snd (alloc s)) (G (nalloc s))) = None \<and>
         wrk_pc s (nalloc s) = W_None \<and>
         wrk_pc (snd (alloc s)) (nalloc s) = W_Start \<and>
         free_list (snd (alloc s)) = free_list s \<and>
         G (nalloc s) \<notin> set (free_list (snd (alloc s))) \<and>
         tail (snd (alloc s)) = tail s \<and> tail s \<noteq> G (nalloc s) \<and>
         count (snd (alloc s)) = count s \<and>
         (\<forall>p. p \<noteq> G (nalloc s) \<longrightarrow> gs (snd (alloc s)) p = gs s p)"
proof -
  obtain xs where I: "I s xs" using reach_I s by blast
  note P = I_parts[OF I]
  have fr: "G (nalloc s) \<notin> set xs" using P(3) by (auto simp: list_inv_def)
  have fl: "free_list s = xs" by (rule I_free_list[OF I])
  have len: "length xs \<le> nalloc s"
    using P(3) by (intro length_le_alloc) (auto simp: list_inv_def)
  have "chain (nx_of (snd (alloc s))) (nx_of (snd (alloc s)) Head) xs"
    using P(3) fr by (simp add: list_inv_def chain_upd_notin)
  then have fl': "free_list (snd (alloc s)) = xs"
    using len by (simp add: free_list_def walk_chain)
  have wn: "wrk_pc s (nalloc s) = W_None" using P(2) by (simp add: alloc_inv_def)
  have tl: "tail s \<noteq> G (nalloc s)" using I_tail_alloc[OF I] by auto
  show ?thesis using fl fl' fr wn tl
    by (simp add: alloc_def Let_def st_defs)
qed

theorem alloc_returns_fresh_idle_witness:
  "fst (alloc (exec one_job (New 0))) = G 1 \<and>
   free_list (snd (alloc (exec one_job (New 0)))) = [G 0] \<and>
   wrk_pc (snd (alloc (exec one_job (New 0)))) 1 = W_Start \<and>
   gs (snd (alloc (exec one_job (New 0)))) (G 0) = gs (exec one_job (New 0)) (G 0)"
proof -
  have n: "nalloc (exec one_job (New 0)) = 1" by (simp add: eval_defs)
  have f: "free_list (exec one_job (New 0)) = [G 0]" by (simp add: eval_defs)
  note T = alloc_returns_fresh_idle[OF refl, of one_job 0]
  have a: "fst (alloc (exec one_job (New 0))) = G 1" using T n by simp
  have b: "free_list (snd (alloc (exec one_job (New 0)))) = [G 0]" using T f by simp
  have c: "wrk_pc (snd (alloc (exec one_job (New 0)))) 1 = W_Start" using T n by simp
  have "G 0 \<noteq> G (nalloc (exec one_job (New 0)))" using n by simp
  then have d: "gs (snd (alloc (exec one_job (New 0)))) (G 0) = gs (exec one_job (New 0)) (G 0)"
    using T by blast
  show ?thesis by (intro conjI a b c d)
qed

section \<open>Terminated workers\<close>

lemmas solo_defs = exec_simps sub_step_def cas_status_eq nx_of_def[symmetric]
  st_of_def[symmetric] case_prod_beta



lemma claim_fresh_effect:
  assumes lk: "lock s = None" and pc: "sub_pc s i = S_Lock" and e: "nx_of s Head = None"
  shows "sub_pc (exec (claim_fresh i) s) i = S_Send (G (nalloc s)) \<and>
         nalloc (exec (claim_fresh i) s) = Suc (nalloc s) \<and>
         wrk_pc (exec (claim_fresh i) s) = (wrk_pc s)(nalloc s := W_Start) \<and>
         st_of (exec (claim_fresh i) s) (G (nalloc s)) = statusInUse"
  using assms by (simp add: claim_fresh_def solo_defs st_defs)





section \<open>get and put on the linked list\<close>

lemmas seq_defs = get_def put_def nx_of_def[symmetric] st_of_def[symmetric]


lemma get_fields:
  assumes "lock s = None" "nx_of s Head = Some r" "r \<noteq> Head"
  shows "\<exists>s'. get t s = Some (r, s') \<and>
           nx_of s' = (nx_of s)(Head := nx_of s r, r := None) \<and>
           tail s' = (if r = tail s then Head else tail s) \<and>
           count s' = count s - 1 \<and> lock s' = None \<and> st_of s' = st_of s \<and>
           nalloc s' = nalloc s \<and> wrk_pc s' = wrk_pc s \<and> sub_pc s' = sub_pc s \<and>
           log s' = log s"
  using assms by (simp add: seq_defs Let_def)

lemma put_fields:
  assumes "lock s = None"
  shows "\<exists>s'. put t p s = Some s' \<and>
           nx_of s' = (nx_of s)(p := None, tail s := Some p) \<and>
           tail s' = p \<and> count s' = count s + 1 \<and> lock s' = None \<and>
           st_of s' = (st_of s)(p := statusIdle) \<and>
           nalloc s' = nalloc s \<and> wrk_pc s' = wrk_pc s \<and> sub_pc s' = sub_pc s \<and>
           log s' = log s"
  using assms by (simp add: seq_defs Let_def)

lemma get_wf:
  assumes wf: "wf_pool s (r # ys)"
  shows "\<exists>s'. get t s = Some (r, s') \<and> wf_pool s' ys \<and> nx_of s' r = None \<and>
              nalloc s' = nalloc s \<and> st_of s' = st_of s"
proof -
  have a: "lock s = None" "nx_of s Head = Some r" "r \<noteq> Head" "chain (nx_of s) (nx_of s r) ys"
    "r \<notin> set ys" "Head \<notin> set ys" "distinct ys" "tail s = lastor (r # ys)"
    "count s = of_nat (length (r # ys))"
    using wf by (auto simp: wf_pool_def)
  from get_fields[OF a(1,2,3), of t] obtain s' where s': "get t s = Some (r, s')"
    "nx_of s' = (nx_of s)(Head := nx_of s r, r := None)"
    "tail s' = (if r = tail s then Head else tail s)"
    "count s' = count s - 1" "lock s' = None" "st_of s' = st_of s" "nalloc s' = nalloc s"
    by blast
  have c: "chain (nx_of s') (nx_of s' Head) ys"
    using a by (simp add: s'(2) chain_upd_notin)
  have t: "tail s' = lastor ys"
  proof (cases "ys = []")
    case True
    then show ?thesis using a(8) s'(3) by (simp add: lastor_def)
  next
    case False
    then have "last ys \<noteq> r" using a(5) by (metis last_in_set)
    then show ?thesis using False a(8) s'(3) by (simp add: lastor_def)
  qed
  have "wf_pool s' ys" using c t a s' by (simp add: wf_pool_def)
  then show ?thesis using s' a(3) by auto
qed

lemma put_wf:
  assumes wf: "wf_pool s q" and p: "p \<notin> set q" "p \<noteq> Head"
  shows "\<exists>s'. put t p s = Some s' \<and> wf_pool s' (q @ [p]) \<and> st_of s' p = statusIdle \<and>
              nalloc s' = nalloc s"
proof -
  have a: "lock s = None" "chain (nx_of s) (nx_of s Head) q" "distinct q" "Head \<notin> set q"
    "tail s = lastor q" "count s = of_nat (length q)"
    using wf by (auto simp: wf_pool_def)
  from put_fields[OF a(1), of t p] obtain s' where s': "put t p s = Some s'"
    "nx_of s' = (nx_of s)(p := None, tail s := Some p)"
    "tail s' = p" "count s' = count s + 1" "lock s' = None"
    "st_of s' = (st_of s)(p := statusIdle)" "nalloc s' = nalloc s"
    by blast
  let ?nx = "(nx_of s)(p := None)"
  have c0: "chain ?nx (?nx Head) q" using a(2) p by (simp add: chain_upd_notin)
  have c: "chain (nx_of s') (nx_of s' Head) (q @ [p])"
  proof (cases "q = []")
    case True
    then show ?thesis using a(5) p by (simp add: s'(2) lastor_def)
  next
    case False
    then have "last q \<noteq> Head" using a(4) by (metis last_in_set)
    moreover have "chain (?nx(last q := Some p)) (?nx Head) (q @ [p])"
      using chain_snoc[OF c0 False a(3) p(1)] by simp
    ultimately show ?thesis using False a(5) p by (simp add: s'(2) lastor_def)
  qed
  have "wf_pool s' (q @ [p])" using c a p s' by (simp add: wf_pool_def lastor_def)
  then show ?thesis using s' by auto
qed

lemma I_wf_pool: "I s xs \<Longrightarrow> lock s = None \<Longrightarrow> wf_pool s xs"
  by (auto simp: I_def wf_pool_def list_inv_def shape_def std_def)

lemma wf_pool_free_list:
  assumes "wf_pool s q" "length q \<le> nalloc s"
  shows "free_list s = q"
  using assms by (simp add: wf_pool_def free_list_def walk_chain)

subsection \<open>get\<close>

lemmas raw_defs = exec_simps sub_step_def wrk_step_def set_nxt_def set_status_def
  Lock_def Unlock_def sgoto_def wgoto_def get_tailfix_def alloc_def Let_def get_def put_def



lemma put_steps_eq:
  assumes "wrk_pc s n = W_PutClear" "lock s = None"
  shows "exec (put_steps n) s = wgoto n W_Reset (the (put (Wrk n) (G n) s))"
  using assms by (simp add: put_steps_def raw_defs)

lemma lock_held_sub:
  assumes "I s xs"
  shows "(lock s = Some (Sub i)) = crit_s (sub_pc s i)"
  using I_parts(1)[OF assms] by (simp add: lock_inv_def)

lemma lock_held_wrk:
  assumes "I s xs"
  shows "(lock s = Some (Wrk n)) = crit_w (wrk_pc s n)"
  using I_parts(1)[OF assms] by (simp add: lock_inv_def)




subsection \<open>put\<close>

text \<open>
  C5 (as amended). In every state of the pool with the mutex free, \<open>put\<close> of any node
  \<open>p\<close> links \<open>p\<close> after the current tail, makes it the tail, adds one to \<open>count\<close>, sets
  its status to Idle and leaves the mutex free. If \<open>p\<close> is an allocated worker that is
  not linked, its \<open>next\<close> is nil afterwards and the free list is the old one with \<open>p\<close>
  added as last element. A worker holds the mutex from the linking to the unlock, the
  store of Idle included, and not when it clears its \<open>next\<close>; the worker that starts
  \<open>put\<close> is never linked; the seven statements the worker executes are \<open>put\<close>.
\<close>

theorem put_appends:
  assumes s: "s = exec es (New d)"
  shows "(lock s = None \<longrightarrow>
            (\<exists>s'. put t p s = Some s' \<and> nxt (gs s' (tail s)) = Some p \<and> tail s' = p \<and>
                  count s' = count s + 1 \<and> status (gs s' p) = statusIdle \<and>
                  lock s' = None \<and>
                  (k < nalloc s \<and> p = G k \<and> p \<notin> set (free_list s) \<longrightarrow>
                     nxt (gs s' p) = None \<and>
                     free_list s' = free_list s @ [p] \<and>
                     chain (nx_of s') (nx_of s' Head) (free_list s') \<and>
                     count s' = of_nat (length (free_list s'))))) \<and>
         (crit_w (wrk_pc s n) \<longrightarrow> lock s = Some (Wrk n)) \<and>
         (wrk_pc s n \<in> {W_PutClear, W_PutLock} \<longrightarrow>
            lock s \<noteq> Some (Wrk n) \<and> G n \<notin> set (free_list s) \<and> n < nalloc s) \<and>
         (wrk_pc s n = W_PutClear \<and> lock s = None \<longrightarrow>
            exec (put_steps n) s = wgoto n W_Reset (the (put (Wrk n) (G n) s)))"
proof -
  obtain xs where I: "I s xs" using reach_I s by blast
  note P = I_parts[OF I]
  have fl: "free_list s = xs" by (rule I_free_list[OF I])
  have a: "\<exists>s'. put t p s = Some s' \<and> nxt (gs s' (tail s)) = Some p \<and> tail s' = p \<and>
                  count s' = count s + 1 \<and> status (gs s' p) = statusIdle \<and>
                  lock s' = None \<and>
                  (k < nalloc s \<and> p = G k \<and> p \<notin> set (free_list s) \<longrightarrow>
                     nxt (gs s' p) = None \<and>
                     free_list s' = free_list s @ [p] \<and>
                     chain (nx_of s') (nx_of s' Head) (free_list s') \<and>
                     count s' = of_nat (length (free_list s')))"
    if lk: "lock s = None"
  proof -
    from put_fields[OF lk, of t p] obtain s' where s': "put t p s = Some s'"
      "nx_of s' = (nx_of s)(p := None, tail s := Some p)"
      "tail s' = p" "count s' = count s + 1" "lock s' = None"
      "st_of s' = (st_of s)(p := statusIdle)" "nalloc s' = nalloc s"
      by blast
    have w: "wf_pool s xs" by (rule I_wf_pool[OF I lk])
    have x: "nxt (gs s' p) = None \<and> free_list s' = free_list s @ [p] \<and>
             chain (nx_of s') (nx_of s' Head) (free_list s') \<and>
             count s' = of_nat (length (free_list s'))"
      if k: "k < nalloc s" "p = G k" "p \<notin> set (free_list s)"
    proof -
      have pn: "p \<notin> set xs" "p \<noteq> Head" using k fl by auto
      from put_wf[OF w pn, of t] s'(1) have w': "wf_pool s' (xs @ [p])" by auto
      have "distinct (xs @ [p])" "\<forall>q \<in> set (xs @ [p]). \<exists>n. n < nalloc s' \<and> q = G n"
        using P(3) pn k s'(7) by (auto simp: list_inv_def)
      then have "length (xs @ [p]) \<le> nalloc s'" by (rule length_le_alloc)
      then have fl': "free_list s' = xs @ [p]" by (rule wf_pool_free_list[OF w'])
      have "tail s \<noteq> p" using w pn last_in_set[of xs]
        by (cases "xs = []") (auto simp: wf_pool_def lastor_def)
      then have "nxt (gs s' p) = None" using s'(2) by (simp add: nx_of_def fun_eq_iff)
      then show ?thesis using fl fl' w' by (simp add: wf_pool_def)
    qed
    have "nxt (gs s' (tail s)) = Some p" "status (gs s' p) = statusIdle"
      using s'(2,6) by (simp_all add: nx_of_def st_of_def fun_eq_iff)
    then show ?thesis using s' x by blast
  qed
  have b: "lock s = Some (Wrk n)" if "crit_w (wrk_pc s n)"
    using that lock_held_wrk[OF I, of n] by simp
  have c: "lock s \<noteq> Some (Wrk n) \<and> G n \<notin> set (free_list s) \<and> n < nalloc s"
    if "wrk_pc s n \<in> {W_PutClear, W_PutLock}"
    using that lock_held_wrk[OF I, of n] w_okD[OF P(6), of n] fl alloc_invD[OF P(2), of n]
    by auto
  have d: "exec (put_steps n) s = wgoto n W_Reset (the (put (Wrk n) (G n) s))"
    if "wrk_pc s n = W_PutClear" "lock s = None"
    using put_steps_eq[OF that] .
  show ?thesis using a b c d by blast
qed

text \<open>
  The claim as stated fails for a worker that is already linked: \<open>put\<close> of the worker
  that is the tail of the list makes its \<open>next\<close> point to itself, so the list has no
  last element any more, and \<open>count\<close> is 2 with one worker linked.
\<close>

theorem put_of_linked_worker:
  "free_list (exec one_job (New 0)) = [G 0] \<and>
   lock (exec one_job (New 0)) = None \<and>
   put (Wrk 0) (G 0) (exec one_job (New 0)) \<noteq> None \<and>
   nxt (gs (the (put (Wrk 0) (G 0) (exec one_job (New 0)))) (G 0)) = Some (G 0) \<and>
   count (the (put (Wrk 0) (G 0) (exec one_job (New 0)))) = 2"
  by (simp add: eval_defs put_def Let_def)

theorem put_appends_witness:
  "lock (exec work_done (New 0)) = None \<and>
   wrk_pc (exec work_done (New 0)) 0 = W_PutClear \<and>
   0 < nalloc (exec work_done (New 0)) \<and>
   G 0 \<notin> set (free_list (exec work_done (New 0))) \<and>
   free_list (the (put (Wrk 0) (G 0) (exec work_done (New 0)))) = [G 0] \<and>
   exec (put_steps 0) (exec work_done (New 0)) =
     wgoto 0 W_Reset (the (put (Wrk 0) (G 0) (exec work_done (New 0))))"
proof -
  let ?s = "exec work_done (New 0)"
  have a: "lock ?s = None" by (simp add: work_done_def eval_defs)
  have b: "wrk_pc ?s 0 = W_PutClear" by (simp add: work_done_def eval_defs)
  have f: "free_list ?s = []" by (simp add: work_done_def eval_defs)
  note T = put_appends[OF refl, of work_done 0 "Wrk 0" "G 0" 0 0]
  have c: "0 < nalloc ?s" and d: "G 0 \<notin> set (free_list ?s)" using T b by auto
  from T a obtain s' where s': "put (Wrk 0) (G 0) ?s = Some s'"
    "0 < nalloc ?s \<and> G 0 = G 0 \<and> G 0 \<notin> set (free_list ?s) \<longrightarrow>
       free_list s' = free_list ?s @ [G 0]" by blast
  have e: "free_list (the (put (Wrk 0) (G 0) ?s)) = [G 0]" using s' c d f by simp
  have g: "exec (put_steps 0) ?s = wgoto 0 W_Reset (the (put (Wrk 0) (G 0) ?s))"
    using T a b by blast
  show ?thesis by (intro conjI a b c d e g)
qed

section \<open>The free list is a queue\<close>

lemma run_ops_queue:
  "wf_pool s q \<Longrightarrow> valid_ops os q \<Longrightarrow>
   \<exists>rs s' q'. run_ops t os s = Some (rs, s') \<and> wf_pool s' q' \<and>
              rs @ q' = q @ released os \<and> length rs = gets os"
proof (induction os arbitrary: s q)
  case Nil
  then show ?case by simp
next
  case (Cons a os)
  show ?case
  proof (cases a)
    case (Put p)
    then have p: "p \<notin> set q" "p \<noteq> Head" and v: "valid_ops os (q @ [p])"
      using Cons.prems(2) by auto
    from put_wf[OF Cons.prems(1) p, of t] obtain s1 where s1: "put t p s = Some s1"
      "wf_pool s1 (q @ [p])" by blast
    from Cons.IH[OF s1(2) v] obtain rs s' q' where r: "run_ops t os s1 = Some (rs, s')"
      "wf_pool s' q'" "rs @ q' = (q @ [p]) @ released os" "length rs = gets os" by blast
    show ?thesis using Put s1(1) r by auto
  next
    case Get
    then obtain r ys where q: "q = r # ys" and v: "valid_ops os ys"
      using Cons.prems(2) by (cases q) auto
    have hd: "nxt (gs s Head) = Some r" using Cons.prems(1) q by (simp add: wf_pool_def nx_of_def)
    from get_wf[OF Cons.prems(1)[unfolded q], of t] obtain s1 where s1: "get t s = Some (r, s1)"
      "wf_pool s1 ys" by blast
    from Cons.IH[OF s1(2) v] obtain rs s' q' where r: "run_ops t os s1 = Some (rs, s')"
      "wf_pool s' q'" "rs @ q' = ys @ released os" "length rs = gets os" by blast
    show ?thesis using Get s1(1) r hd q by auto
  qed
qed

text \<open>
  C10 (as amended). From a well-formed pool whose free list is \<open>q\<close>, every sequence of
  \<open>put\<close> and \<open>get\<close> in which \<open>put\<close> is given workers that are not linked and no \<open>get\<close>
  allocates runs to its end; the workers that the calls of \<open>get\<close> returned, followed by the
  workers still linked, are the workers of \<open>q\<close> followed by the workers released, in
  the order of their release: \<open>get\<close> hands workers out first in, first out.
\<close>

theorem free_list_fifo:
  assumes "wf_pool s q" and "valid_ops os q"
  shows "\<exists>rs s'. run_ops t os s = Some (rs, s') \<and>
                 rs = take (gets os) (q @ released os) \<and>
                 wf_pool s' (drop (gets os) (q @ released os))"
proof -
  from run_ops_queue[OF assms, of t] obtain rs s' q' where r: "run_ops t os s = Some (rs, s')"
    "wf_pool s' q'" "rs @ q' = q @ released os" "length rs = gets os" by blast
  have "rs = take (gets os) (q @ released os)" "q' = drop (gets os) (q @ released os)"
    using r(3,4) by (metis append_eq_conv_conj)+
  then show ?thesis using r by auto
qed

theorem free_list_fifo_witness:
  "wf_pool (exec one_job (New 0)) [G 0] \<and>
   valid_ops [Put (G 1), Get, Put (G 2), Get] [G 0] \<and>
   fst (the (run_ops (Wrk 0) [Put (G 1), Get, Put (G 2), Get] (exec one_job (New 0)))) =
     [G 0, G 1] \<and>
   wf_pool (snd (the (run_ops (Wrk 0) [Put (G 1), Get, Put (G 2), Get]
                        (exec one_job (New 0))))) [G 2]"
proof -
  let ?s = "exec one_job (New 0)"
  let ?os = "[Put (G 1), Get, Put (G 2), Get]"
  have a: "wf_pool ?s [G 0]" by (simp add: wf_pool_def lastor_def eval_defs)
  have b: "valid_ops ?os [G 0]" by simp
  from free_list_fifo[OF a b, of "Wrk 0"] obtain rs s' where
    r: "run_ops (Wrk 0) ?os ?s = Some (rs, s')"
       "rs = take (gets ?os) ([G 0] @ released ?os)"
       "wf_pool s' (drop (gets ?os) ([G 0] @ released ?os))" by blast
  have c: "fst (the (run_ops (Wrk 0) ?os ?s)) = [G 0, G 1]" using r(1,2) by simp
  have d: "wf_pool (snd (the (run_ops (Wrk 0) ?os ?s))) [G 2]" using r(1,3) by simp
  show ?thesis by (intro conjI a b c d)
qed

text \<open>
  The claim as stated fails for sequences that put a worker that is still linked.
  Three workers have run their work and are about to put themselves back; the list is
  empty. Worker 0 is put, worker 1 is put, worker 0 is put again (which unlinks worker
  1), a \<open>get\<close> returns worker 0, worker 2 is put, and the next \<open>get\<close> returns worker 2:
  worker 1 was released before worker 2 and is not handed out.
\<close>

theorem put_twice_breaks_fifo:
  "wf_pool (exec three_done (New 0)) [] \<and>
   wrk_pc (exec three_done (New 0)) 1 = W_PutClear \<and>
   released [Put (G 0), Put (G 1), Put (G 0), Get, Put (G 2), Get] = [G 0, G 1, G 0, G 2] \<and>
   fst (the (run_ops (Wrk 0) [Put (G 0), Put (G 1), Put (G 0), Get, Put (G 2), Get]
              (exec three_done (New 0)))) = [G 0, G 2]"
  by (simp add: three_done_def wf_pool_def lastor_def eval_defs put_def get_def Let_def)

section \<open>Every work item is run once\<close>

lemma card_less_insert:
  "card (insert (n::nat) {i. i < n \<and> P i}) = Suc (card {i. i < n \<and> P i})"
  by (subst card_insert_disjoint) auto

lemma accounted_submit:
  assumes "accounted s f"
  shows "accounted (submit g s) f"
proof -
  let ?s = "submit g s"
  have r: "ran ?s f = ran s f" "held ?s f = held s f"
    by (simp_all add: ran_def held_def)
  show ?thesis
  proof (cases "g = f")
    case True
    have "{i. i < nsub ?s \<and> sub_f ?s i = f} = insert (nsub s) {i. i < nsub s \<and> sub_f s i = f}"
      using True by (auto simp: less_Suc_eq)
    then have a: "submitted ?s f = Suc (submitted s f)"
      unfolding submitted_def by (simp only: card_less_insert)
    have "{i. i < nsub ?s \<and> sub_f ?s i = f \<and> sub_pc ?s i \<noteq> S_Done} =
          insert (nsub s) {i. i < nsub s \<and> sub_f s i = f \<and> sub_pc s i \<noteq> S_Done}"
      using True by (auto simp: less_Suc_eq)
    then have b: "waiting ?s f = Suc (waiting s f)"
      unfolding waiting_def by (simp only: card_less_insert)
    show ?thesis using assms unfolding accounted_def r a b by simp
  next
    case False
    have "{i. i < nsub ?s \<and> sub_f ?s i = f} = {i. i < nsub s \<and> sub_f s i = f}"
      using False by (auto simp: less_Suc_eq)
    then have a: "submitted ?s f = submitted s f"
      unfolding submitted_def by (simp only:)
    have "{i. i < nsub ?s \<and> sub_f ?s i = f \<and> sub_pc ?s i \<noteq> S_Done} =
          {i. i < nsub s \<and> sub_f s i = f \<and> sub_pc s i \<noteq> S_Done}"
      using False by (auto simp: less_Suc_eq)
    then have b: "waiting ?s f = waiting s f"
      unfolding waiting_def by (simp only:)
    show ?thesis using assms unfolding accounted_def r a b by simp
  qed
qed

text \<open>A statement of a submitter moves no work: it neither ends at \<open>S_Done\<close> nor starts
  a worker that holds work.\<close>

lemma sub_step_frame:
  "nsub (sub_step i s) = nsub s" "sub_f (sub_step i s) = sub_f s" "log (sub_step i s) = log s"
  "(sub_pc (sub_step i s) j = S_Done) = (sub_pc s j = S_Done)"
  "nalloc s \<le> nalloc (sub_step i s)"
  by (auto simp: sub_step_def cas_status_eq case_prod_beta split: spc.splits option.splits)

lemma sub_step_work:
  assumes "\<forall>n. nalloc s \<le> n \<longrightarrow> wrk_pc s n = W_None"
  shows "(n < nalloc (sub_step i s) \<and> wrk_pc (sub_step i s) n = W_Work f) =
         (n < nalloc s \<and> wrk_pc s n = W_Work f)"
  using assms
  by (auto simp: sub_step_def cas_status_eq case_prod_beta less_Suc_eq
      split: spc.splits option.splits)

lemma accounted_sub_step:
  assumes "accounted s f" and "alloc_inv s"
  shows "accounted (sub_step i s) f"
proof -
  have w: "\<forall>n. nalloc s \<le> n \<longrightarrow> wrk_pc s n = W_None" using assms(2) by (simp add: alloc_inv_def)
  show ?thesis
    using assms(1)
    by (simp add: accounted_def submitted_def waiting_def held_def ran_def
        sub_step_frame sub_step_work[OF w])
qed

lemma accounted_timer:
  assumes "accounted s f"
  shows "accounted (timer_fire n s) f"
proof -
  have "\<And>m. (wrk_pc (timer_fire n s) m = W_Work f) = (wrk_pc s m = W_Work f)"
    by (auto simp: timer_fire_def)
  then show ?thesis using assms
    by (simp add: accounted_def submitted_def waiting_def held_def ran_def)
      (simp add: timer_fire_def)
qed

lemma accounted_wrk_step:
  assumes a: "accounted s f" and al: "alloc_inv s"
  shows "accounted (wrk_step m s) f"
proof (cases "\<exists>g. wrk_pc s m = W_Work g")
  case False
  then have "\<And>n. (wrk_pc (wrk_step m s) n = W_Work f) = (wrk_pc s n = W_Work f)"
    by (cases "wrk_pc s m") (auto simp: wrk_step_def cas_status_eq)
  moreover have "log (wrk_step m s) = log s" "nalloc (wrk_step m s) = nalloc s"
    "nsub (wrk_step m s) = nsub s" "sub_f (wrk_step m s) = sub_f s"
    "sub_pc (wrk_step m s) = sub_pc s"
    using False by (cases "wrk_pc s m"; simp add: wrk_step_def cas_status_eq)+
  ultimately show ?thesis using a
    by (simp add: accounted_def submitted_def waiting_def held_def ran_def)
next
  case True
  then obtain g where g: "wrk_pc s m = W_Work g" by blast
  have ma: "m < nalloc s" using alloc_invD[OF al, of m] g by simp
  have s': "wrk_step m s = wgoto m W_PutClear (s\<lparr>log := log s @ [(m, g)]\<rparr>)"
    using g by (simp add: wrk_step_def)
  show ?thesis
  proof (cases "g = f")
    case False
    then have "{n. n < nalloc s \<and> ((wrk_pc s)(m := W_PutClear)) n = W_Work f} =
               {n. n < nalloc s \<and> wrk_pc s n = W_Work f}"
      using g by auto
    then show ?thesis using a False
      by (simp add: s' accounted_def submitted_def waiting_def held_def ran_def)
  next
    case True
    have fin: "finite {n. n < nalloc s \<and> wrk_pc s n = W_Work f}" by simp
    have mem: "m \<in> {n. n < nalloc s \<and> wrk_pc s n = W_Work f}" using g True ma by simp
    have "{n. n < nalloc s \<and> ((wrk_pc s)(m := W_PutClear)) n = W_Work f} =
          {n. n < nalloc s \<and> wrk_pc s n = W_Work f} - {m}"
      by auto
    then have "card {n. n < nalloc s \<and> ((wrk_pc s)(m := W_PutClear)) n = W_Work f} =
               card {n. n < nalloc s \<and> wrk_pc s n = W_Work f} - 1"
      using fin mem by (simp add: card_Diff_singleton)
    moreover have "card {n. n < nalloc s \<and> wrk_pc s n = W_Work f} > 0"
      using fin mem card_gt_0_iff by blast
    ultimately show ?thesis using a True
      by (simp add: s' accounted_def submitted_def waiting_def held_def ran_def)
  qed
qed

lemma accounted_handoff:
  assumes a: "accounted s f" and al: "alloc_inv s"
  shows "accounted (handoff i m s) f"
proof (cases "\<exists>r. sub_pc s i = S_Send r \<and> wrk_pc s m = W_Select \<and> ch (gs s r) \<noteq> None
                  \<and> ch (gs s r) = ch (gs s (G m))")
  case False
  then have "handoff i m s = s" by (auto simp: handoff_def split: spc.splits)
  then show ?thesis using a by simp
next
  case True
  then obtain r where r: "sub_pc s i = S_Send r" "wrk_pc s m = W_Select" by blast
  have s': "handoff i m s = sgoto i S_Done (wgoto m (W_Work (sub_f s i)) s)"
    using True by (auto simp: handoff_def)
  have ma: "m < nalloc s" using alloc_invD[OF al, of m] r by simp
  have ia: "i < nsub s"
  proof (rule ccontr)
    assume "\<not> i < nsub s"
    then have "sub_pc s i = S_None" using al by (simp add: alloc_inv_def)
    then show False using r by simp
  qed
  show ?thesis
  proof (cases "sub_f s i = f")
    case False
    then have "{n. n < nalloc s \<and> ((wrk_pc s)(m := W_Work (sub_f s i))) n = W_Work f} =
               {n. n < nalloc s \<and> wrk_pc s n = W_Work f}"
      using r by auto
    moreover have "{j. j < nsub s \<and> sub_f s j = f \<and> ((sub_pc s)(i := S_Done)) j \<noteq> S_Done} =
                   {j. j < nsub s \<and> sub_f s j = f \<and> sub_pc s j \<noteq> S_Done}"
      using False by auto
    ultimately show ?thesis using a
      by (simp add: s' accounted_def submitted_def waiting_def held_def ran_def)
  next
    case True
    have "{n. n < nalloc s \<and> ((wrk_pc s)(m := W_Work (sub_f s i))) n = W_Work f} =
          insert m {n. n < nalloc s \<and> wrk_pc s n = W_Work f}"
      using True ma by auto
    moreover have "m \<notin> {n. n < nalloc s \<and> wrk_pc s n = W_Work f}" using r by simp
    ultimately have h: "card {n. n < nalloc s \<and> ((wrk_pc s)(m := W_Work (sub_f s i))) n = W_Work f} =
                     Suc (card {n. n < nalloc s \<and> wrk_pc s n = W_Work f})"
      by simp
    have fin: "finite {j. j < nsub s \<and> sub_f s j = f \<and> sub_pc s j \<noteq> S_Done}" by simp
    have mem: "i \<in> {j. j < nsub s \<and> sub_f s j = f \<and> sub_pc s j \<noteq> S_Done}"
      using True ia r by simp
    have "{j. j < nsub s \<and> sub_f s j = f \<and> ((sub_pc s)(i := S_Done)) j \<noteq> S_Done} =
          {j. j < nsub s \<and> sub_f s j = f \<and> sub_pc s j \<noteq> S_Done} - {i}"
      by auto
    then have w: "card {j. j < nsub s \<and> sub_f s j = f \<and> ((sub_pc s)(i := S_Done)) j \<noteq> S_Done} =
               card {j. j < nsub s \<and> sub_f s j = f \<and> sub_pc s j \<noteq> S_Done} - 1"
      using fin mem by (simp add: card_Diff_singleton)
    have "card {j. j < nsub s \<and> sub_f s j = f \<and> sub_pc s j \<noteq> S_Done} > 0"
      using fin mem card_gt_0_iff by blast
    then show ?thesis using a h w
      by (simp add: s' accounted_def submitted_def waiting_def held_def ran_def)
  qed
qed

lemma accounted_step:
  assumes "accounted s f" and "alloc_inv s"
  shows "accounted (step e s) f"
  using assms
  by (cases e)
    (simp_all add: accounted_submit accounted_sub_step accounted_wrk_step accounted_timer
      accounted_handoff)

lemma accounted_reach: "accounted (exec es (New d)) f"
proof (induction es rule: rev_induct)
  case Nil
  show ?case
    by (simp add: exec_simps accounted_def ran_def held_def waiting_def submitted_def New_def)
next
  case (snoc e es)
  obtain xs where "I (exec es (New d)) xs" using reach_I by blast
  then have "alloc_inv (exec es (New d))" by (rule I_parts(2))
  then show ?case using snoc accounted_step by (simp add: exec_snoc)
qed

subsection \<open>Schedules without new submissions\<close>

lemma nosub_simps [simp]:
  "nosub []" "nosub (e # es) = (\<not> is_submit e \<and> nosub es)"
  "nosub (es @ es') = (nosub es \<and> nosub es')"
  by (auto simp: nosub_def)

lemma sub_step_other: "j \<noteq> i \<Longrightarrow> sub_pc (sub_step i s) j = sub_pc s j"
  by (auto simp: sub_step_def cas_status_eq case_prod_beta split: spc.splits option.splits)

lemma sub_step_idle: "\<not> pending (sub_pc s i) \<Longrightarrow> sub_step i s = s"
  by (auto simp: sub_step_def pending_def)

lemma wrk_step_sub: "sub_pc (wrk_step m s) = sub_pc s" "nsub (wrk_step m s) = nsub s"
  "sub_f (wrk_step m s) = sub_f s"
  by (cases "wrk_pc s m"; simp add: wrk_step_def cas_status_eq)+

lemma step_frame:
  assumes "\<not> is_submit e"
  shows "nsub (step e s) = nsub s" "sub_f (step e s) = sub_f s"
    "\<not> pending (sub_pc s j) \<Longrightarrow> sub_pc (step e s) j = sub_pc s j"
proof -
  show "nsub (step e s) = nsub s" "sub_f (step e s) = sub_f s"
    using assms
    by (cases e; auto simp: sub_step_frame wrk_step_sub timer_fire_def handoff_def
        split: spc.splits)+
  show "sub_pc (step e s) j = sub_pc s j" if "\<not> pending (sub_pc s j)"
  proof (cases e)
    case (SubStep i)
    then show ?thesis using that sub_step_other[of j i s] sub_step_idle[of s i]
      by (cases "j = i") auto
  next
    case (Handoff i m)
    then show ?thesis using that
      by (auto simp: handoff_def pending_def split: spc.splits)
  qed (use assms in \<open>auto simp: wrk_step_sub timer_fire_def\<close>)
qed

lemma exec_frame:
  assumes "nosub es"
  shows "nsub (exec es s) = nsub s \<and> sub_f (exec es s) = sub_f s \<and>
         (\<not> pending (sub_pc s j) \<longrightarrow> sub_pc (exec es s) j = sub_pc s j)"
  using assms
proof (induction es arbitrary: s)
  case Nil
  then show ?case by (simp add: exec_simps)
next
  case (Cons e es)
  then have e: "\<not> is_submit e" and es: "nosub es" by auto
  show ?case
    using Cons.IH[OF es, of "step e s"] step_frame(1,2)[OF e, of s] step_frame(3)[OF e, of s j]
    by (auto simp: exec_simps)
qed

lemma submitted_frame:
  assumes "nosub es"
  shows "submitted (exec es s) f = submitted s f"
  using exec_frame[OF assms, of s] by (simp add: submitted_def)

subsection \<open>The holder of the mutex can release it\<close>

lemmas wsolo_defs = exec_simps wrk_step_def cas_status_eq nx_of_def[symmetric]
  st_of_def[symmetric] ch_of_def[symmetric]

lemma unlock_sub:
  assumes "lock s = Some (Sub i)" "crit_s (sub_pc s i)"
  shows "\<exists>es'. nosub es' \<and> lock (exec es' s) = None"
proof (cases "sub_pc s i")
  case S_Test
  show ?thesis
  proof (cases "nx_of s Head")
    case None
    then have "lock (exec [SubStep i, SubStep i] s) = None"
      using S_Test by (simp add: solo_defs)
    then show ?thesis by (intro exI[of _ "[SubStep i, SubStep i]"]) simp
  next
    case (Some r)
    then have "lock (exec [SubStep i, SubStep i, SubStep i, SubStep i, SubStep i] s) = None"
      using S_Test by (simp add: solo_defs)
    then show ?thesis
      by (intro exI[of _ "[SubStep i, SubStep i, SubStep i, SubStep i, SubStep i]"]) simp
  qed
next
  case S_UnlockA
  then have "lock (exec [SubStep i] s) = None" by (simp add: solo_defs)
  then show ?thesis by (intro exI[of _ "[SubStep i]"]) simp
next
  case (S_Relink r)
  then have "lock (exec [SubStep i, SubStep i, SubStep i, SubStep i] s) = None"
    by (simp add: solo_defs)
  then show ?thesis by (intro exI[of _ "[SubStep i, SubStep i, SubStep i, SubStep i]"]) simp
next
  case (S_TailFix r)
  then have "lock (exec [SubStep i, SubStep i, SubStep i] s) = None" by (simp add: solo_defs)
  then show ?thesis by (intro exI[of _ "[SubStep i, SubStep i, SubStep i]"]) simp
next
  case (S_Dec r)
  then have "lock (exec [SubStep i, SubStep i] s) = None" by (simp add: solo_defs)
  then show ?thesis by (intro exI[of _ "[SubStep i, SubStep i]"]) simp
next
  case (S_Unlock r)
  then have "lock (exec [SubStep i] s) = None" by (simp add: solo_defs)
  then show ?thesis by (intro exI[of _ "[SubStep i]"]) simp
qed (use assms(2) in auto)

lemma unlock_wrk:
  assumes "lock s = Some (Wrk m)" "crit_w (wrk_pc s m)"
  shows "\<exists>es'. nosub es' \<and> lock (exec es' s) = None"
proof (cases "wrk_pc s m")
  case W_PutLink
  then have "lock (exec [WrkStep m, WrkStep m, WrkStep m, WrkStep m, WrkStep m] s) = None"
    by (simp add: wsolo_defs)
  then show ?thesis
    by (intro exI[of _ "[WrkStep m, WrkStep m, WrkStep m, WrkStep m, WrkStep m]"]) simp
next
  case W_PutTail
  then have "lock (exec [WrkStep m, WrkStep m, WrkStep m, WrkStep m] s) = None"
    by (simp add: wsolo_defs)
  then show ?thesis by (intro exI[of _ "[WrkStep m, WrkStep m, WrkStep m, WrkStep m]"]) simp
next
  case W_PutInc
  then have "lock (exec [WrkStep m, WrkStep m, WrkStep m] s) = None" by (simp add: wsolo_defs)
  then show ?thesis by (intro exI[of _ "[WrkStep m, WrkStep m, WrkStep m]"]) simp
next
  case W_PutIdle
  then have "lock (exec [WrkStep m, WrkStep m] s) = None" by (simp add: wsolo_defs)
  then show ?thesis by (intro exI[of _ "[WrkStep m, WrkStep m]"]) simp
next
  case W_PutUnlock
  then have "lock (exec [WrkStep m] s) = None" by (simp add: wsolo_defs)
  then show ?thesis by (intro exI[of _ "[WrkStep m]"]) simp
qed (use assms(2) in auto)

lemma can_unlock:
  assumes I: "I s xs"
  shows "\<exists>es'. nosub es' \<and> lock (exec es' s) = None"
proof (cases "lock s")
  case None
  then have "lock (exec [] s) = None" by (simp add: exec_simps)
  then show ?thesis by (intro exI[of _ "[]"]) simp
next
  case (Some t)
  show ?thesis
  proof (cases t)
    case (Sub i)
    then show ?thesis using Some unlock_sub[of s i] lock_held_sub[OF I, of i] by simp
  next
    case (Wrk m)
    then show ?thesis using Some unlock_wrk[of s m] lock_held_wrk[OF I, of m] by simp
  qed
qed

subsection \<open>Every submission can be completed\<close>

lemma reach_exec: "reach s \<Longrightarrow> reach (exec es' s)"
  unfolding reach_def by (metis exec_append)

lemma reach_inv: "reach s \<Longrightarrow> \<exists>xs. I s xs"
  unfolding reach_def using reach_I by blast

lemma drive_send:
  assumes r: "reach s" and pc: "sub_pc s i = S_Send r"
  shows "\<exists>es'. nosub es' \<and> sub_pc (exec es' s) i = S_Done"
proof -
  obtain xs where I: "I s xs" using reach_inv[OF r] by blast
  from send_facts[OF I pc] obtain k where k: "r = G k" "ch_of s (G k) = Some k"
    "st_of s (G k) = statusInUse" "wrk_pc s k \<in> {W_Start, W_Select, W_Timer, W_Reset}"
    by blast
  have ne: "statusInUse \<noteq> statusIdle" by (simp add: st_defs)
  consider "wrk_pc s k = W_Select" | "wrk_pc s k = W_Start" | "wrk_pc s k = W_Reset"
    | "wrk_pc s k = W_Timer" using k(4) by auto
  then show ?thesis
  proof cases
    case 1
    then have "sub_pc (exec [Handoff i k] s) i = S_Done"
      using pc k by (simp add: wsolo_defs handoff_def)
    then show ?thesis by (intro exI[of _ "[Handoff i k]"]) simp
  next
    case 2
    then have "sub_pc (exec [WrkStep k, Handoff i k] s) i = S_Done"
      using pc k by (simp add: wsolo_defs handoff_def)
    then show ?thesis by (intro exI[of _ "[WrkStep k, Handoff i k]"]) simp
  next
    case 3
    then have "sub_pc (exec [WrkStep k, Handoff i k] s) i = S_Done"
      using pc k by (simp add: wsolo_defs handoff_def)
    then show ?thesis by (intro exI[of _ "[WrkStep k, Handoff i k]"]) simp
  next
    case 4
    then have "sub_pc (exec [WrkStep k, WrkStep k, Handoff i k] s) i = S_Done"
      using pc k ne by (simp add: wsolo_defs handoff_def)
    then show ?thesis by (intro exI[of _ "[WrkStep k, WrkStep k, Handoff i k]"]) simp
  qed
qed

lemma free_list_cong:
  "nx_of s' = nx_of s \<Longrightarrow> nalloc s' = nalloc s \<Longrightarrow> free_list s' = free_list s"
  by (simp add: free_list_def)

lemma pop_effect:
  assumes r: "reach s" and lk: "lock s = None" and pc: "sub_pc s i = S_Lock"
    and fl: "free_list s = p # ys"
  shows "sub_pc (exec (pop_first i) s) i = S_CAS p \<and> lock (exec (pop_first i) s) = None \<and>
         free_list (exec (pop_first i) s) = ys"
proof -
  obtain xs where I: "I s xs" using reach_inv[OF r] by blast
  note P = I_parts[OF I]
  have xs: "xs = p # ys" using I_free_list[OF I] fl by simp
  have hd: "nx_of s Head = Some p" and ch: "chain (nx_of s) (nx_of s p) ys"
    and ni: "p \<notin> set ys" "Head \<notin> set ys" "p \<noteq> Head"
    using P(3) xs by (auto simp: list_inv_def)
  let ?s = "exec (pop_first i) s"
  have e: "lock ?s = None" "sub_pc ?s i = S_CAS p"
    "nx_of ?s = (nx_of s)(Head := nx_of s p, p := None)"
    using lk pc hd ni(3) by (simp_all add: pop_first_def solo_defs)
  have "chain (nx_of ?s) (nx_of ?s Head) ys"
    using ch ni by (simp add: e(3) chain_upd_notin)
  moreover obtain xs' where I': "I ?s xs'" using reach_inv[OF reach_exec[OF r]] by blast
  ultimately have "xs' = ys"
    using I_parts(3)[OF I'] chain_unique by (auto simp: list_inv_def)
  then have "free_list ?s = ys" using I_free_list[OF I'] by simp
  then show ?thesis using e by simp
qed

lemma nosub_sched [simp]:
  "nosub (claim_fresh i)" "nosub (pop_first i)"
  by (simp_all add: claim_fresh_def pop_first_def)

lemma drive_lock:
  "reach s \<Longrightarrow> lock s = None \<Longrightarrow> sub_pc s i = S_Lock \<Longrightarrow> length (free_list s) = n \<Longrightarrow>
   \<exists>es'. nosub es' \<and> sub_pc (exec es' s) i = S_Done"
proof (induction n arbitrary: s)
  case 0
  obtain xs where I: "I s xs" using reach_inv[OF "0.prems"(1)] by blast
  have "xs = []" using I_free_list[OF I] "0.prems"(4) by simp
  then have "nx_of s Head = None" using I_parts(3)[OF I] by (simp add: list_inv_def)
  then have "sub_pc (exec (claim_fresh i) s) i = S_Send (G (nalloc s))"
    using claim_fresh_effect[OF "0.prems"(2,3)] by simp
  from drive_send[OF reach_exec[OF "0.prems"(1)] this]
  obtain es2 where es2: "nosub es2" "sub_pc (exec es2 (exec (claim_fresh i) s)) i = S_Done"
    by blast
  show ?case
    by (intro exI[of _ "claim_fresh i @ es2"]) (use es2 in \<open>simp add: exec_append exec_simps\<close>)
next
  case (Suc n)
  then obtain p ys where fl: "free_list s = p # ys" "length ys = n"
    by (cases "free_list s") auto
  let ?s1 = "exec (pop_first i) s"
  have r1: "reach ?s1" by (rule reach_exec[OF Suc.prems(1)])
  have e1: "sub_pc ?s1 i = S_CAS p" "lock ?s1 = None" "free_list ?s1 = ys"
    using pop_effect[OF Suc.prems(1,2,3) fl(1)] by auto
  obtain xs1 where I1: "I ?s1 xs1" using reach_inv[OF r1] by blast
  have v: "st_of ?s1 p = statusIdle \<or> st_of ?s1 p = statusDying"
    using sub_invD[OF I_parts(5)[OF I1], of i p] e1(1) by simp
  show ?case
  proof (cases "st_of ?s1 p = statusIdle")
    case True
    then have "sub_pc (exec [SubStep i] ?s1) i = S_Send p"
      using e1(1) by (simp add: solo_defs)
    from drive_send[OF reach_exec[OF r1] this]
    obtain es2 where es2: "nosub es2" "sub_pc (exec es2 (exec [SubStep i] ?s1)) i = S_Done"
      by blast
    show ?thesis
      by (intro exI[of _ "pop_first i @ [SubStep i] @ es2"]) (use es2 in \<open>simp add: exec_append exec_simps\<close>)
  next
    case False
    then have d: "st_of ?s1 p = statusDying" using v by simp
    let ?s2 = "exec [SubStep i, SubStep i, SubStep i] ?s1"
    have e2: "sub_pc ?s2 i = S_Lock" "lock ?s2 = None" "nx_of ?s2 = nx_of ?s1"
      "nalloc ?s2 = nalloc ?s1"
      using e1 d by (simp_all add: solo_defs st_defs)
    have f2: "length (free_list ?s2) = n"
      using free_list_cong[OF e2(3,4)] e1(3) fl(2) by simp
    from Suc.IH[OF reach_exec[OF r1] e2(2) e2(1) f2]
    obtain es2 where es2: "nosub es2" "sub_pc (exec es2 ?s2) i = S_Done" by blast
    show ?thesis
      by (intro exI[of _ "pop_first i @ [SubStep i, SubStep i, SubStep i] @ es2"])
        (use es2 in \<open>simp add: exec_append exec_simps\<close>)
  qed
qed

lemma drive_cas:
  assumes r: "reach s" and lk: "lock s = None" and pc: "sub_pc s i = S_CAS p"
  shows "\<exists>es'. nosub es' \<and> sub_pc (exec es' s) i = S_Done"
proof -
  obtain xs where I: "I s xs" using reach_inv[OF r] by blast
  have v: "st_of s p = statusIdle \<or> st_of s p = statusDying"
    using sub_invD[OF I_parts(5)[OF I], of i p] pc by simp
  show ?thesis
  proof (cases "st_of s p = statusIdle")
    case True
    then have "sub_pc (exec [SubStep i] s) i = S_Send p" using pc by (simp add: solo_defs)
    from drive_send[OF reach_exec[OF r] this]
    obtain es2 where es2: "nosub es2" "sub_pc (exec es2 (exec [SubStep i] s)) i = S_Done"
      by blast
    show ?thesis by (intro exI[of _ "[SubStep i] @ es2"]) (use es2 in \<open>simp add: exec_append exec_simps\<close>)
  next
    case False
    then have d: "st_of s p = statusDying" using v by simp
    let ?s2 = "exec [SubStep i, SubStep i, SubStep i] s"
    have e2: "sub_pc ?s2 i = S_Lock" "lock ?s2 = None"
      using pc lk d by (simp_all add: solo_defs st_defs)
    from drive_lock[OF reach_exec[OF r] e2(2) e2(1) refl]
    obtain es2 where es2: "nosub es2" "sub_pc (exec es2 ?s2) i = S_Done" by blast
    show ?thesis
      by (intro exI[of _ "[SubStep i, SubStep i, SubStep i] @ es2"]) (use es2 in \<open>simp add: exec_append exec_simps\<close>)
  qed
qed

lemma drive_free:
  assumes r: "reach s" and lk: "lock s = None" and pe: "pending (sub_pc s i)"
  shows "\<exists>es'. nosub es' \<and> sub_pc (exec es' s) i = S_Done"
proof -
  obtain xs where I: "I s xs" using reach_inv[OF r] by blast
  have nc: "\<not> crit_s (sub_pc s i)" using lock_held_sub[OF I, of i] lk by simp
  show ?thesis
  proof (cases "sub_pc s i")
    case S_Lock
    then show ?thesis using drive_lock[OF r lk _ refl] by simp
  next
    case S_Alloc
    let ?s1 = "exec [SubStep i, SubStep i] s"
    have "sub_pc ?s1 i = S_Send (G (nalloc s))" using S_Alloc by (simp add: solo_defs st_defs)
    from drive_send[OF reach_exec[OF r] this]
    obtain es2 where es2: "nosub es2" "sub_pc (exec es2 ?s1) i = S_Done" by blast
    show ?thesis
      by (intro exI[of _ "[SubStep i, SubStep i] @ es2"]) (use es2 in \<open>simp add: exec_append exec_simps\<close>)
  next
    case (S_Clear p)
    let ?s1 = "exec [SubStep i] s"
    have e: "sub_pc ?s1 i = S_CAS p" "lock ?s1 = None" using S_Clear lk by (simp_all add: solo_defs)
    from drive_cas[OF reach_exec[OF r] e(2) e(1)]
    obtain es2 where es2: "nosub es2" "sub_pc (exec es2 ?s1) i = S_Done" by blast
    show ?thesis by (intro exI[of _ "[SubStep i] @ es2"]) (use es2 in \<open>simp add: exec_append exec_simps\<close>)
  next
    case (S_CAS p)
    then show ?thesis using drive_cas[OF r lk] by simp
  next
    case (S_Load p)
    have d: "st_of s p = statusDying" using sub_invD[OF I_parts(5)[OF I], of i p] S_Load by simp
    let ?s1 = "exec [SubStep i, SubStep i] s"
    have e: "sub_pc ?s1 i = S_Lock" "lock ?s1 = None"
      using S_Load lk d by (simp_all add: solo_defs)
    from drive_lock[OF reach_exec[OF r] e(2) e(1) refl]
    obtain es2 where es2: "nosub es2" "sub_pc (exec es2 ?s1) i = S_Done" by blast
    show ?thesis
      by (intro exI[of _ "[SubStep i, SubStep i] @ es2"]) (use es2 in \<open>simp add: exec_append exec_simps\<close>)
  next
    case (S_MarkDead p)
    let ?s1 = "exec [SubStep i] s"
    have e: "sub_pc ?s1 i = S_Lock" "lock ?s1 = None"
      using S_MarkDead lk by (simp_all add: solo_defs)
    from drive_lock[OF reach_exec[OF r] e(2) e(1) refl]
    obtain es2 where es2: "nosub es2" "sub_pc (exec es2 ?s1) i = S_Done" by blast
    show ?thesis by (intro exI[of _ "[SubStep i] @ es2"]) (use es2 in \<open>simp add: exec_append exec_simps\<close>)
  next
    case (S_Send p)
    then show ?thesis using drive_send[OF r] by simp
  qed (use nc pe in \<open>auto simp: pending_def\<close>)
qed

lemma none_stays:
  assumes "nosub es"
  shows "(sub_pc (exec es s) i = S_None) = (sub_pc s i = S_None)"
  using assms
proof (induction es arbitrary: s)
  case Nil
  then show ?case by (simp add: exec_simps)
next
  case (Cons e es)
  then have e: "\<not> is_submit e" and es: "nosub es" by auto
  have "(sub_pc (step e s) i = S_None) = (sub_pc s i = S_None)"
    using e
    by (cases e)
      (auto simp: sub_step_def cas_status_eq case_prod_beta wrk_step_sub timer_fire_def
        handoff_def split: spc.splits option.splits)
  then show ?case using Cons.IH[OF es, of "step e s"] by (simp add: exec_simps)
qed

lemma drive:
  assumes r: "reach s" and pe: "pending (sub_pc s i)"
  shows "\<exists>es'. nosub es' \<and> sub_pc (exec es' s) i = S_Done"
proof -
  obtain xs where I: "I s xs" using reach_inv[OF r] by blast
  from can_unlock[OF I] obtain es1 where es1: "nosub es1" "lock (exec es1 s) = None" by blast
  have nn: "sub_pc (exec es1 s) i \<noteq> S_None" using none_stays[OF es1(1), of s i] pe
    by (simp add: pending_def)
  show ?thesis
  proof (cases "sub_pc (exec es1 s) i = S_Done")
    case True
    then show ?thesis using es1(1) by blast
  next
    case False
    then have "pending (sub_pc (exec es1 s) i)" using nn by (simp add: pending_def)
    from drive_free[OF reach_exec[OF r] es1(2) this]
    obtain es2 where es2: "nosub es2" "sub_pc (exec es2 (exec es1 s)) i = S_Done" by blast
    show ?thesis by (intro exI[of _ "es1 @ es2"]) (use es1 es2 in \<open>simp add: exec_append exec_simps\<close>)
  qed
qed

lemma pending_finite:
  assumes "alloc_inv s"
  shows "finite {j. pending (sub_pc s j)}"
proof -
  have "{j. pending (sub_pc s j)} \<subseteq> {..<nsub s}"
    using assms by (auto simp: alloc_inv_def pending_def) (meson not_le)
  then show ?thesis using finite_subset by blast
qed

lemma all_done:
  "reach s \<Longrightarrow> card {j. pending (sub_pc s j)} = n \<Longrightarrow>
   \<exists>es'. nosub es' \<and> (\<forall>j. \<not> pending (sub_pc (exec es' s) j))"
proof (induction n arbitrary: s rule: less_induct)
  case (less n)
  obtain xs where I: "I s xs" using reach_inv[OF less.prems(1)] by blast
  have fin: "finite {j. pending (sub_pc s j)}" by (rule pending_finite[OF I_parts(2)[OF I]])
  show ?case
  proof (cases "{j. pending (sub_pc s j)} = {}")
    case True
    then have "\<forall>j. \<not> pending (sub_pc (exec [] s) j)" by (auto simp: exec_simps)
    then show ?thesis by (intro exI[of _ "[]"]) simp
  next
    case False
    then obtain i where i: "pending (sub_pc s i)" by auto
    from drive[OF less.prems(1) i] obtain es1 where es1: "nosub es1"
      "sub_pc (exec es1 s) i = S_Done" by blast
    let ?s1 = "exec es1 s"
    have sub: "{j. pending (sub_pc ?s1 j)} \<subseteq> {j. pending (sub_pc s j)} - {i}"
    proof
      fix j assume "j \<in> {j. pending (sub_pc ?s1 j)}"
      then have pj: "pending (sub_pc ?s1 j)" by simp
      have "pending (sub_pc s j)"
      proof (rule ccontr)
        assume "\<not> pending (sub_pc s j)"
        then have "sub_pc ?s1 j = sub_pc s j" using exec_frame[OF es1(1), of s j] by simp
        then show False using pj \<open>\<not> pending (sub_pc s j)\<close> by simp
      qed
      moreover have "j \<noteq> i" using pj es1(2) by (auto simp: pending_def)
      ultimately show "j \<in> {j. pending (sub_pc s j)} - {i}" by simp
    qed
    have "{j. pending (sub_pc s j)} - {i} \<subset> {j. pending (sub_pc s j)}" using i by auto
    then have "{j. pending (sub_pc ?s1 j)} \<subset> {j. pending (sub_pc s j)}" using sub by blast
    then have lt: "card {j. pending (sub_pc ?s1 j)} < n"
      using psubset_card_mono[OF fin] less.prems(2) by blast
    from less.IH[OF lt reach_exec[OF less.prems(1)] refl]
    obtain es2 where es2: "nosub es2" "\<forall>j. \<not> pending (sub_pc (exec es2 ?s1) j)" by blast
    show ?thesis
      by (intro exI[of _ "es1 @ es2"]) (use es1 es2 in \<open>simp add: exec_append\<close>)
  qed
qed

lemma flush_upto:
  "\<exists>es'. nosub es' \<and> sub_pc (exec es' s) = sub_pc s \<and> nalloc (exec es' s) = nalloc s \<and>
         (\<forall>n<k. \<forall>f. wrk_pc (exec es' s) n \<noteq> W_Work f)"
proof (induction k)
  case 0
  have "sub_pc (exec [] s) = sub_pc s \<and> nalloc (exec [] s) = nalloc s" by (simp add: exec_simps)
  then show ?case by (intro exI[of _ "[]"]) simp
next
  case (Suc k)
  then obtain es1 where es1: "nosub es1" "sub_pc (exec es1 s) = sub_pc s"
    "nalloc (exec es1 s) = nalloc s" "\<forall>n<k. \<forall>f. wrk_pc (exec es1 s) n \<noteq> W_Work f" by blast
  let ?s1 = "exec es1 s"
  show ?case
  proof (cases "\<exists>f. wrk_pc ?s1 k = W_Work f")
    case False
    then have "\<forall>n<Suc k. \<forall>f. wrk_pc ?s1 n \<noteq> W_Work f" using es1(4) by (auto simp: less_Suc_eq)
    then show ?thesis using es1 by blast
  next
    case True
    then obtain f where f: "wrk_pc ?s1 k = W_Work f" by blast
    have e: "exec (es1 @ [WrkStep k]) s = wgoto k W_PutClear (?s1\<lparr>log := log ?s1 @ [(k, f)]\<rparr>)"
      using f by (simp add: exec_snoc wrk_step_def)
    have "\<forall>n<Suc k. \<forall>g. wrk_pc (exec (es1 @ [WrkStep k]) s) n \<noteq> W_Work g"
      using es1(4) by (auto simp: e less_Suc_eq)
    moreover have "sub_pc (exec (es1 @ [WrkStep k]) s) = sub_pc s"
      "nalloc (exec (es1 @ [WrkStep k]) s) = nalloc s"
      using es1(2,3) by (simp_all add: e)
    moreover have "nosub (es1 @ [WrkStep k])" using es1(1) by simp
    ultimately show ?thesis by blast
  qed
qed

lemma flush_work:
  assumes r: "reach s"
  shows "\<exists>es'. nosub es' \<and> sub_pc (exec es' s) = sub_pc s \<and>
               (\<forall>n f. wrk_pc (exec es' s) n \<noteq> W_Work f)"
proof -
  from flush_upto[of s "nalloc s"] obtain es' where es': "nosub es'"
    "sub_pc (exec es' s) = sub_pc s" "nalloc (exec es' s) = nalloc s"
    "\<forall>n<nalloc s. \<forall>f. wrk_pc (exec es' s) n \<noteq> W_Work f" by blast
  obtain xs where I: "I (exec es' s) xs" using reach_inv[OF reach_exec[OF r]] by blast
  have "wrk_pc (exec es' s) n \<noteq> W_Work f" for n f
  proof (cases "n < nalloc s")
    case True
    then show ?thesis using es'(4) by simp
  next
    case False
    then have "wrk_pc (exec es' s) n = W_None"
      using I_parts(2)[OF I] es'(3) by (simp add: alloc_inv_def)
    then show ?thesis by simp
  qed
  then show ?thesis using es'(1,2) by blast
qed

lemma started_step:
  assumes "\<forall>i<nsub s. sub_pc s i \<noteq> S_None"
  shows "\<forall>i<nsub (step e s). sub_pc (step e s) i \<noteq> S_None"
proof (cases e)
  case (Submit f)
  then show ?thesis using assms by (auto simp: less_Suc_eq)
next
  case (SubStep i)
  have "\<And>j. (sub_pc (sub_step i s) j = S_None) = (sub_pc s j = S_None)"
    by (auto simp: sub_step_def cas_status_eq case_prod_beta split: spc.splits option.splits)
  then show ?thesis using SubStep assms by (simp add: sub_step_frame)
next
  case (WrkStep m)
  then show ?thesis using assms by (simp add: wrk_step_sub)
next
  case (TimerFire m)
  then show ?thesis using assms by (simp add: timer_fire_def)
next
  case (Handoff i m)
  then show ?thesis using assms by (auto simp: handoff_def split: spc.splits)
qed

lemma started_reach: "reach s \<Longrightarrow> i < nsub s \<Longrightarrow> sub_pc s i \<noteq> S_None"
proof -
  have "\<forall>i<nsub (exec es (New d)). sub_pc (exec es (New d)) i \<noteq> S_None" for es d
  proof (induction es rule: rev_induct)
    case Nil
    then show ?case by (simp add: exec_simps New_def)
  next
    case (snoc e es)
    then show ?case using started_step[of "exec es (New d)" e] by (simp add: exec_snoc)
  qed
  then show "reach s \<Longrightarrow> i < nsub s \<Longrightarrow> sub_pc s i \<noteq> S_None"
    by (auto simp: reach_def)
qed

lemma log_workers:
  "\<forall>e \<in> set (log (exec es (New d))). fst e < nalloc (exec es (New d))"
proof (induction es rule: rev_induct)
  case Nil
  then show ?case by (simp add: exec_simps New_def)
next
  case (snoc e es)
  let ?s = "exec es (New d)"
  obtain xs where I: "I ?s xs" using reach_I by blast
  have mono: "nalloc ?s \<le> nalloc (step e ?s)" by (rule nalloc_step)
  have "set (log (step e ?s)) \<subseteq> set (log ?s) \<union> {p. fst p < nalloc ?s}"
  proof (cases e)
    case (SubStep i)
    then show ?thesis by (simp add: sub_step_frame)
  next
    case (WrkStep m)
    show ?thesis
    proof (cases "wrk_pc ?s m")
      case (W_Work f)
      then have "m < nalloc ?s" using alloc_invD[OF I_parts(2)[OF I], of m] by simp
      then show ?thesis using WrkStep W_Work by (auto simp: wrk_step_def)
    qed (use WrkStep in \<open>auto simp: wrk_step_def cas_status_eq\<close>)
  next
    case (Handoff i m)
    then show ?thesis by (auto simp: handoff_def split: spc.splits)
  qed (auto simp: timer_fire_def)
  then show ?case using snoc mono by (fastforce simp: exec_snoc)
qed

subsection \<open>The statements the threads can still execute\<close>

lemma enabled_step: "enabled e s = (step e s \<noteq> s)"
proof (cases e)
  case (Submit f)
  have "nsub (submit f s) \<noteq> nsub s" by (simp add: submit_def)
  then have "submit f s \<noteq> s" by metis
  then show ?thesis using Submit by simp
next
  case (SubStep i)
  show ?thesis
  proof (cases "enabled e s")
    case True
    then have "sub_pc (sub_step i s) i \<noteq> sub_pc s i" using SubStep
      by (auto simp: sub_step_def sgoto_def cas_status_eq case_prod_beta split: spc.splits option.splits)
    then show ?thesis using True SubStep by auto
  next
    case False
    then have "sub_step i s = s" using SubStep by (auto simp: sub_step_def split: spc.splits)
    then show ?thesis using False SubStep by simp
  qed
next
  case (WrkStep n)
  show ?thesis
  proof (cases "enabled e s")
    case True
    then have "wrk_pc (wrk_step n s) n \<noteq> wrk_pc s n" using WrkStep
      by (auto simp: wrk_step_def wgoto_def cas_status_eq split: wpc.splits)
    then show ?thesis using True WrkStep by auto
  next
    case False
    then have "wrk_step n s = s" using WrkStep by (auto simp: wrk_step_def split: wpc.splits)
    then show ?thesis using False WrkStep by simp
  qed
next
  case (TimerFire n)
  show ?thesis
  proof (cases "enabled e s")
    case True
    then have "wrk_pc (timer_fire n s) n \<noteq> wrk_pc s n" using TimerFire
      by (auto simp: timer_fire_def wgoto_def)
    then show ?thesis using True TimerFire by auto
  next
    case False
    then show ?thesis using TimerFire by (simp add: timer_fire_def)
  qed
next
  case (Handoff i n)
  show ?thesis
  proof (cases "enabled e s")
    case True
    then have "sub_pc (handoff i n s) i \<noteq> sub_pc s i" using Handoff
      by (auto simp: handoff_def sgoto_def wgoto_def split: spc.splits)
    then show ?thesis using True Handoff by auto
  next
    case False
    then have "handoff i n s = s" using Handoff by (auto simp: handoff_def split: spc.splits)
    then show ?thesis using False Handoff by simp
  qed
qed

lemma sum_change:
  fixes t :: "nat \<Rightarrow> nat"
  assumes "n < N" and "\<And>m. m \<noteq> n \<Longrightarrow> t' m = t m"
  shows "(\<Sum>m<N. t' m) + t n = (\<Sum>m<N. t m) + t' n"
proof -
  have n: "n \<in> {..<N}" using assms(1) by simp
  have a: "(\<Sum>m<N. t' m) = t' n + sum t' ({..<N} - {n})" by (rule sum.remove[OF _ n]) simp
  have b: "(\<Sum>m<N. t m) = t n + sum t ({..<N} - {n})" by (rule sum.remove[OF _ n]) simp
  have c: "sum t' ({..<N} - {n}) = sum t ({..<N} - {n})"
    by (rule sum.cong) (use assms(2) in auto)
  show ?thesis using a b c by simp
qed

lemma sub_change:
  assumes "i < nsub s" "nsub s' = nsub s" "\<And>j. j \<noteq> i \<Longrightarrow> sub_pc s' j = sub_pc s j"
  shows "sub_budget s' + sub_left (sub_pc s i) = sub_budget s + sub_left (sub_pc s' i)"
  unfolding sub_budget_def assms(2)
  by (rule sum_change[OF assms(1)]) (simp add: assms(3))

lemma sub_same:
  assumes "nsub s' = nsub s" "sub_pc s' = sub_pc s"
  shows "sub_budget s' = sub_budget s"
  by (simp add: sub_budget_def assms)

lemma wrk_change:
  assumes "n < nalloc s" "nalloc s' = nalloc s" "\<And>m. m \<noteq> n \<Longrightarrow> wterm s' m = wterm s m"
  shows "wrk_budget s' + wterm s n = wrk_budget s + wterm s' n"
  unfolding wrk_budget_def assms(2)
  by (rule sum_change[OF assms(1)]) (simp add: assms(3))

lemma wrk_same:
  assumes "nalloc s' = nalloc s" "\<And>m. wterm s' m = wterm s m"
  shows "wrk_budget s' = wrk_budget s"
  by (simp add: wrk_budget_def assms)

lemma budget_sub_generic:
  assumes "i < nsub s" "nsub s' = nsub s" "\<And>j. j \<noteq> i \<Longrightarrow> sub_pc s' j = sub_pc s j"
    "nalloc s' = nalloc s" "\<And>m. wterm s' m = wterm s m"
    "sub_left (sub_pc s' i) < sub_left (sub_pc s i)"
  shows "budget s' < budget s"
  using sub_change[OF assms(1,2,3)] wrk_same[OF assms(4,5)] assms(6) by (simp add: budget_def)

lemma budget_wrk_generic:
  assumes "n < nalloc s" "nalloc s' = nalloc s" "\<And>m. m \<noteq> n \<Longrightarrow> wterm s' m = wterm s m"
    "nsub s' = nsub s" "sub_pc s' = sub_pc s" "wterm s' n < wterm s n"
  shows "budget s' < budget s"
  using wrk_change[OF assms(1,2,3)] sub_same[OF assms(4,5)] assms(6) by (simp add: budget_def)

lemma budget_sub_step:
  assumes I: "I s xs" and en: "enabled (SubStep i) s"
  shows "budget (sub_step i s) < budget s"
proof -
  note P = I_parts[OF I]
  have ns: "sub_pc s i \<noteq> S_None" using en by auto
  have i: "i < nsub s" using P(2) ns unfolding alloc_inv_def by (meson not_le)
  show ?thesis
  proof (cases "sub_pc s i")
    case S_Alloc
    let ?s' = "sub_step i s"
    have a: "sub_budget ?s' + sub_left (sub_pc s i) = sub_budget s + sub_left (sub_pc ?s' i)"
      by (rule sub_change[OF i]) (simp_all add: sub_step_def S_Alloc case_prod_beta)
    have n: "nalloc ?s' = Suc (nalloc s)" by (simp add: sub_step_def S_Alloc case_prod_beta)
    have w: "wterm ?s' m = wterm s m" if "m < nalloc s" for m
      using that by (simp add: sub_step_def S_Alloc case_prod_beta wterm_def)
    have w': "wterm ?s' (nalloc s) = 1"
      by (simp add: sub_step_def S_Alloc case_prod_beta wterm_def st_defs)
    have b: "wrk_budget ?s' = wrk_budget s + 1"
      unfolding wrk_budget_def n using w w' by simp
    have c: "sub_pc ?s' i = S_CAS (G (nalloc s))"
      by (simp add: sub_step_def S_Alloc case_prod_beta)
    show ?thesis using a b c S_Alloc by (simp add: budget_def)
  next
    case (S_MarkDead r)
    let ?s' = "sub_step i s"
    from sub_invD[OF P(5), of i r] S_MarkDead obtain n where n: "n < nalloc s" "r = G n"
      and v: "st_of s r = statusDying" by auto
    have a: "sub_budget ?s' + sub_left (sub_pc s i) = sub_budget s + sub_left (sub_pc ?s' i)"
      by (rule sub_change[OF i]) (simp_all add: sub_step_def S_MarkDead)
    have b: "wrk_budget ?s' + wterm s n = wrk_budget s + wterm ?s' n"
      by (rule wrk_change[OF n(1)])
         (simp_all add: sub_step_def S_MarkDead wterm_def n(2))
    have c: "sub_pc ?s' i = S_Lock" by (simp add: sub_step_def S_MarkDead)
    have d: "wterm s n = wterm ?s' n + 18" using v
      by (simp add: sub_step_def S_MarkDead wterm_def n(2) st_defs)
    show ?thesis using a b c d S_MarkDead by (simp add: budget_def)
  next
    case (S_Load r)
    from sub_invD[OF P(5), of i r] S_Load have v: "st_of s r = statusDying" by auto
    then have v': "status (gs s r) = statusDying" by (simp add: st_of_def)
    show ?thesis
      by (rule budget_sub_generic[OF i])
         (simp_all add: sub_step_def S_Load wterm_def v')
  next
    case (S_CAS r)
    show ?thesis
      by (rule budget_sub_generic[OF i])
         (auto simp: sub_step_def S_CAS wterm_def cas_status_eq st_defs)
  next
    case S_None
    then show ?thesis using en by simp
  next
    case S_Lock
    then show ?thesis using en
      by (intro budget_sub_generic[OF i]) (simp_all add: sub_step_def wterm_def split: option.splits)
  next
    case S_Test
    then show ?thesis using en
      by (intro budget_sub_generic[OF i]) (simp_all add: sub_step_def wterm_def split: option.splits)
  next
    case S_UnlockA
    then show ?thesis using en
      by (intro budget_sub_generic[OF i]) (simp_all add: sub_step_def wterm_def split: option.splits)
  next
    case (S_Relink r)
    then show ?thesis using en
      by (intro budget_sub_generic[OF i]) (simp_all add: sub_step_def wterm_def split: option.splits)
  next
    case (S_TailFix r)
    then show ?thesis using en
      by (intro budget_sub_generic[OF i]) (simp_all add: sub_step_def wterm_def split: option.splits)
  next
    case (S_Dec r)
    then show ?thesis using en
      by (intro budget_sub_generic[OF i]) (simp_all add: sub_step_def wterm_def split: option.splits)
  next
    case (S_Unlock r)
    then show ?thesis using en
      by (intro budget_sub_generic[OF i]) (simp_all add: sub_step_def wterm_def split: option.splits)
  next
    case (S_Clear r)
    then show ?thesis using en
      by (intro budget_sub_generic[OF i]) (simp_all add: sub_step_def wterm_def split: option.splits)
  next
    case (S_Send r)
    then show ?thesis using en by simp
  next
    case S_Done
    then show ?thesis using en by simp
  qed
qed

lemma budget_wrk_step:
  assumes I: "I s xs" and en: "enabled (WrkStep n) s"
  shows "budget (wrk_step n s) < budget s"
proof -
  have "wrk_pc s n \<noteq> W_None" using en by auto
  then have n: "n < nalloc s" by (rule alloc_invD[OF I_parts(2)[OF I]])
  show ?thesis
  proof (cases "wrk_pc s n")
    case W_None
    then show ?thesis using en by simp
  next
    case W_Start
    then show ?thesis using en
      by (intro budget_wrk_generic[OF n]) (auto simp: wrk_step_def wterm_def cas_status_eq st_defs)
  next
    case W_Select
    then show ?thesis using en by simp
  next
    case W_Timer
    then show ?thesis using en
      by (intro budget_wrk_generic[OF n]) (auto simp: wrk_step_def wterm_def cas_status_eq st_defs)
  next
    case (W_Work f)
    then show ?thesis using en
      by (intro budget_wrk_generic[OF n]) (auto simp: wrk_step_def wterm_def cas_status_eq st_defs)
  next
    case W_PutClear
    then show ?thesis using en
      by (intro budget_wrk_generic[OF n]) (auto simp: wrk_step_def wterm_def cas_status_eq st_defs)
  next
    case W_PutLock
    then show ?thesis using en
      by (intro budget_wrk_generic[OF n]) (auto simp: wrk_step_def wterm_def cas_status_eq st_defs)
  next
    case W_PutLink
    then show ?thesis using en
      by (intro budget_wrk_generic[OF n]) (auto simp: wrk_step_def wterm_def cas_status_eq st_defs)
  next
    case W_PutTail
    then show ?thesis using en
      by (intro budget_wrk_generic[OF n]) (auto simp: wrk_step_def wterm_def cas_status_eq st_defs)
  next
    case W_PutInc
    then show ?thesis using en
      by (intro budget_wrk_generic[OF n]) (auto simp: wrk_step_def wterm_def cas_status_eq st_defs)
  next
    case W_PutIdle
    then show ?thesis using en
      by (intro budget_wrk_generic[OF n]) (auto simp: wrk_step_def wterm_def cas_status_eq st_defs)
  next
    case W_PutUnlock
    then show ?thesis using en
      by (intro budget_wrk_generic[OF n]) (auto simp: wrk_step_def wterm_def cas_status_eq st_defs)
  next
    case W_Reset
    then show ?thesis using en
      by (intro budget_wrk_generic[OF n]) (auto simp: wrk_step_def wterm_def cas_status_eq st_defs)
  next
    case W_Exit
    then show ?thesis using en by simp
  qed
qed

lemma budget_handoff:
  assumes I: "I s xs" and en: "enabled (Handoff i n) s"
  shows "budget (handoff i n s) < budget s"
proof -
  note P = I_parts[OF I]
  have "\<exists>g. sub_pc s i = S_Send g" using en by (cases "sub_pc s i") simp_all
  then obtain g where pc: "sub_pc s i = S_Send g" by blast
  have "enabled (Handoff i n) s =
          (wrk_pc s n = W_Select \<and> ch (gs s g) \<noteq> None \<and> ch (gs s g) = ch (gs s (G n)))"
    by (simp add: pc)
  then have wc: "wrk_pc s n = W_Select \<and> ch (gs s g) \<noteq> None \<and> ch (gs s g) = ch (gs s (G n))"
    using en by blast
  have w: "wrk_pc s n = W_Select" using wc by blast
  have c: "ch (gs s g) \<noteq> None" "ch (gs s g) = ch (gs s (G n))" using wc by blast+
  have n: "n < nalloc s" using alloc_invD[OF P(2), of n] w by simp
  have i: "i < nsub s" using P(2) pc unfolding alloc_inv_def by (metis not_le spc.distinct(25))
  let ?s' = "handoff i n s"
  have e: "?s' = sgoto i S_Done (wgoto n (W_Work (sub_f s i)) s)"
    using pc w c by (simp add: handoff_def)
  have a: "sub_budget ?s' + sub_left (sub_pc s i) = sub_budget s + sub_left (sub_pc ?s' i)"
    by (rule sub_change[OF i]) (simp_all add: e)
  have b: "wrk_budget ?s' + wterm s n = wrk_budget s + wterm ?s' n"
    by (rule wrk_change[OF n]) (simp_all add: e wterm_def)
  have d: "wterm ?s' n = wterm s n + 9" using w by (simp add: e wterm_def)
  have f: "sub_pc ?s' i = S_Done" by (simp add: e)
  show ?thesis using a b d f pc by (simp add: budget_def)
qed

lemma budget_submit: "budget (submit f s) = budget s + 18"
proof -
  have n: "nsub (submit f s) = Suc (nsub s)" by (simp add: submit_def)
  have a: "sub_pc (submit f s) i = sub_pc s i" if "i < nsub s" for i
    using that by (simp add: submit_def)
  have b: "sub_pc (submit f s) (nsub s) = S_Lock" by (simp add: submit_def)
  have "sub_budget (submit f s) = sub_budget s + 18"
    unfolding sub_budget_def n using a b by simp
  moreover have "wrk_budget (submit f s) = wrk_budget s"
    by (rule wrk_same) (simp_all add: wterm_def)
  ultimately show ?thesis by (simp add: budget_def)
qed

lemma budget_timer:
  assumes I: "I s xs"
  shows "budget (timer_fire n s) \<le> budget s + 19"
proof (cases "wrk_pc s n = W_Select")
  case True
  have n: "n < nalloc s" using alloc_invD[OF I_parts(2)[OF I], of n] True by simp
  let ?s' = "timer_fire n s"
  have e: "?s' = wgoto n W_Timer s" using True by (simp add: timer_fire_def)
  have b: "wrk_budget ?s' + wterm s n = wrk_budget s + wterm ?s' n"
    by (rule wrk_change[OF n]) (simp_all add: e wterm_def)
  have d: "wterm ?s' n = wterm s n + 19" using True by (simp add: e wterm_def)
  have "sub_budget ?s' = sub_budget s" by (rule sub_same) (simp_all add: e)
  then show ?thesis using b d by (simp add: budget_def)
next
  case False
  then show ?thesis by (simp add: timer_fire_def)
qed

lemma budget_step:
  assumes I: "I s xs"
  shows "budget (step e s) + (if is_thread e \<and> enabled e s then 1 else 0) \<le> budget s + cost e"
proof (cases "enabled e s")
  case False
  then have "step e s = s" by (simp add: enabled_step)
  then show ?thesis using False by simp
next
  case True
  show ?thesis
  proof (cases e)
    case (Submit f)
    then show ?thesis by (simp add: budget_submit)
  next
    case (SubStep i)
    then show ?thesis using budget_sub_step[OF I, of i] True by simp
  next
    case (WrkStep n)
    then show ?thesis using budget_wrk_step[OF I, of n] True by simp
  next
    case (TimerFire n)
    then show ?thesis using budget_timer[OF I, of n] by simp
  next
    case (Handoff i n)
    then show ?thesis using budget_handoff[OF I, of i n] True by simp
  qed
qed

lemma budget_exec:
  "reach s \<Longrightarrow>
   budget (exec es s) + moves es s \<le> budget s + 18 * submits es + 19 * fires es"
proof (induction es arbitrary: s)
  case Nil
  then show ?case by (simp add: exec_simps submits_def fires_def)
next
  case (Cons e es)
  obtain xs where I: "I s xs" using reach_inv[OF Cons.prems] by blast
  have "reach (exec [e] s)" by (rule reach_exec[OF Cons.prems])
  then have r: "reach (step e s)" by (simp add: exec_simps)
  note ih = Cons.IH[OF r]
  note st = budget_step[OF I, of e]
  have c: "18 * submits (e # es) + 19 * fires (e # es) = cost e + 18 * submits es + 19 * fires es"
    by (cases e) (simp_all add: submits_def fires_def)
  show ?case using ih st c by (simp add: exec_simps)
qed

lemma quiescent_lock:
  assumes I: "I s xs" and q: "quiescent s"
  shows "lock s = None"
proof (rule ccontr)
  assume "lock s \<noteq> None"
  then obtain t where t: "lock s = Some t" by blast
  note P = I_parts[OF I]
  show False
  proof (cases t)
    case (Sub j)
    then have c: "crit_s (sub_pc s j)" using P(1) t by (auto simp: lock_inv_def)
    then have "sub_pc s j \<noteq> S_None" by auto
    then have j: "j < nsub s" using P(2) unfolding alloc_inv_def by (meson not_le)
    have "enabled (SubStep j) s" using c by (cases "sub_pc s j") simp_all
    then show False using q j by (simp add: quiescent_def)
  next
    case (Wrk m)
    then have c: "crit_w (wrk_pc s m)" using P(1) t by (auto simp: lock_inv_def)
    then have "wrk_pc s m \<noteq> W_None" by auto
    then have m: "m < nalloc s" by (rule alloc_invD[OF P(2)])
    have "enabled (WrkStep m) s" using c by (cases "wrk_pc s m") simp_all
    then show False using q m by (simp add: quiescent_def)
  qed
qed

lemma no_deadlock:
  assumes r: "reach s" and q: "quiescent s"
  shows "(\<forall>i<nsub s. sub_pc s i = S_Done) \<and> (\<forall>n f. wrk_pc s n \<noteq> W_Work f)"
proof -
  obtain xs where I: "I s xs" using reach_inv[OF r] by blast
  note P = I_parts[OF I]
  have fr: "lock s = None" by (rule quiescent_lock[OF I q])
  have a: "sub_pc s i = S_Done" if i: "i < nsub s" for i
  proof -
    have ns: "sub_pc s i \<noteq> S_None" by (rule started_reach[OF r i])
    have ne: "\<not> enabled (SubStep i) s" using q i by (simp add: quiescent_def)
    have "sub_pc s i \<noteq> S_Send g" for g
    proof
      assume pc: "sub_pc s i = S_Send g"
      from send_facts[OF I pc] obtain k where k: "g = G k" "ch_of s (G k) = Some k"
        "wrk_pc s k \<in> {W_Start, W_Select, W_Timer, W_Reset}" by blast
      have "wrk_pc s k \<noteq> W_None" using k(3) by auto
      then have kn: "k < nalloc s" by (rule alloc_invD[OF P(2)])
      have nw: "\<not> enabled (WrkStep k) s" using q kn by (simp add: quiescent_def)
      then have w: "wrk_pc s k = W_Select" using k(3) by auto
      have "enabled (Handoff i k) s" using pc w k(1,2) by (simp add: ch_of_def)
      then show False using q i kn by (simp add: quiescent_def)
    qed
    then show ?thesis using ns ne fr by (cases "sub_pc s i") auto
  qed
  have b: "wrk_pc s n \<noteq> W_Work f" for n f
  proof
    assume w: "wrk_pc s n = W_Work f"
    then have "wrk_pc s n \<noteq> W_None" by simp
    then have n: "n < nalloc s" by (rule alloc_invD[OF P(2)])
    have "enabled (WrkStep n) s" using w by simp
    then show False using q n by (simp add: quiescent_def)
  qed
  show ?thesis using a b by blast
qed

lemma quiescent_done:
  assumes r: "reach s" and q: "quiescent s"
  shows "ran s g = submitted s g \<and> held s g = 0 \<and> waiting s g = 0"
proof -
  from no_deadlock[OF r q] have a: "\<forall>i<nsub s. sub_pc s i = S_Done"
    and b: "\<forall>n f. wrk_pc s n \<noteq> W_Work f" by blast+
  have "{i. i < nsub s \<and> sub_f s i = g \<and> sub_pc s i \<noteq> S_Done} = {}" using a by auto
  then have w: "waiting s g = 0" by (simp add: waiting_def)
  have h: "held s g = 0" using b by (simp add: held_def)
  obtain es d where "s = exec es (New d)" using r by (auto simp: reach_def)
  then have "accounted s g" using accounted_reach[of es d g] by simp
  then show ?thesis using w h by (simp add: accounted_def)
qed

lemma moves_append: "moves (es @ es') s = moves es s + moves es' (exec es s)"
  by (induction es arbitrary: s) (simp_all add: exec_simps)

lemmas starve_defs = starve_round_def exec_simps sub_step_def wrk_step_def timer_fire_def
  cas_status_eq nx_of_def[symmetric] st_of_def[symmetric] case_prod_beta st_defs

lemma starve_round_step:
  assumes pc: "sub_pc s i = S_Lock" and fr: "lock s = None" and em: "nx_of s Head = None"
  shows "sub_pc (exec (starve_round i (nalloc s)) s) i = S_Lock"
    "lock (exec (starve_round i (nalloc s)) s) = None"
    "nx_of (exec (starve_round i (nalloc s)) s) Head = None"
    "nalloc (exec (starve_round i (nalloc s)) s) = Suc (nalloc s)"
    "log (exec (starve_round i (nalloc s)) s) = log s"
    "nsub (exec (starve_round i (nalloc s)) s) = nsub s"
    "sub_f (exec (starve_round i (nalloc s)) s) = sub_f s"
    "st_of (exec (starve_round i (nalloc s)) s) (G (nalloc s)) = statusDead"
    "wrk_pc (exec (starve_round i (nalloc s)) s) (nalloc s) = W_Exit"
    "moves (starve_round i (nalloc s)) s = 9"
  using pc fr em by (simp_all add: starve_defs)

lemma submits_nosub: "nosub es \<Longrightarrow> submits es = 0"
  by (induction es) (simp_all add: submits_def nosub_def)

lemma starve_state:
  "sub_pc (exec (starve k) (exec [Submit f] (New d))) 0 = S_Lock \<and>
   lock (exec (starve k) (exec [Submit f] (New d))) = None \<and>
   nx_of (exec (starve k) (exec [Submit f] (New d))) Head = None \<and>
   nalloc (exec (starve k) (exec [Submit f] (New d))) = k \<and>
   log (exec (starve k) (exec [Submit f] (New d))) = [] \<and>
   nsub (exec (starve k) (exec [Submit f] (New d))) = 1 \<and>
   sub_f (exec (starve k) (exec [Submit f] (New d))) 0 = f \<and>
   moves (starve k) (exec [Submit f] (New d)) = 9 * k \<and>
   fires (starve k) = k"
proof (induction k)
  case 0
  show ?case by (simp add: exec_simps submit_def New_def nx_of_def fires_def)
next
  case (Suc k)
  let ?s = "exec (starve k) (exec [Submit f] (New d))"
  have pc: "sub_pc ?s 0 = S_Lock" and fr: "lock ?s = None" and em: "nx_of ?s Head = None"
    and n: "nalloc ?s = k" using Suc by blast+
  note R = starve_round_step[OF pc fr em, unfolded n]
  have e: "exec (starve (Suc k)) (exec [Submit f] (New d)) = exec (starve_round 0 k) ?s"
    by (simp add: exec_append)
  have m: "moves (starve (Suc k)) (exec [Submit f] (New d)) = 9 * Suc k"
    using Suc R(10) by (simp add: moves_append)
  have fi: "fires (starve (Suc k)) = Suc k"
    using Suc by (simp add: fires_def starve_round_def)
  show ?case unfolding e using R(1-7) Suc m fi by simp
qed

text \<open>
  C1. In every state of the pool, whatever the interleaving of submitters, workers and
  timers, and taking a work item to return when it is run:
  \<^item> each submission of a work item \<open>f\<close> is either still with its submitter, or has
    been handed to one worker that has not yet run it, or has been run, once; so no
    work item is run more often than it was submitted and none is dropped;
  \<^item> every run is the run of one allocated worker;
  \<^item> there is a continuation without new submissions after which every work item has
    been run exactly as often as it was submitted, no submitter is left inside \<open>Go\<close> and
    no worker holds work;
  \<^item> the pool does not deadlock: in a state where no thread can execute a statement,
    every work item has been run exactly as often as it was submitted;
  \<^item> in every continuation the statements executed are bounded by the budget of the
    state, to which each new call of \<open>Go\<close> adds 18 and each timer event 19;
  \<^item> so in every continuation without new calls and without timer events the threads
    execute at most \<open>budget s\<close> statements, and once none can execute a statement every
    work item has been run exactly as often as it was submitted.
\<close>

theorem work_run_exactly_once:
  assumes s: "s = exec es (New d)"
  shows "ran s f + held s f + waiting s f = submitted s f \<and>
         (\<forall>e \<in> set (log s). fst e < nalloc s) \<and>
         (\<exists>es'. nosub es' \<and>
            (\<forall>g. ran (exec es' s) g = submitted s g \<and> held (exec es' s) g = 0 \<and>
                 waiting (exec es' s) g = 0)) \<and>
         (quiescent s \<longrightarrow> (\<forall>g. ran s g = submitted s g \<and> held s g = 0 \<and> waiting s g = 0)) \<and>
         (\<forall>es'. budget (exec es' s) + moves es' s
                  \<le> budget s + 18 * submits es' + 19 * fires es') \<and>
         (\<forall>es'. nosub es' \<and> fires es' = 0 \<longrightarrow>
            moves es' s \<le> budget s \<and>
            (quiescent (exec es' s) \<longrightarrow>
               (\<forall>g. ran (exec es' s) g = submitted s g \<and> held (exec es' s) g = 0 \<and>
                    waiting (exec es' s) g = 0)))"
proof -
  have r: "reach s" using s by (auto simp: reach_def)
  have a: "ran s f + held s f + waiting s f = submitted s f"
    using accounted_reach[of es d f] s by (simp add: accounted_def)
  have b: "\<forall>e \<in> set (log s). fst e < nalloc s" using log_workers[of es d] s by simp
  from all_done[OF r refl] obtain es1 where es1: "nosub es1"
    "\<forall>j. \<not> pending (sub_pc (exec es1 s) j)" by blast
  let ?s1 = "exec es1 s"
  have r1: "reach ?s1" by (rule reach_exec[OF r])
  from flush_work[OF r1] obtain es2 where es2: "nosub es2" "sub_pc (exec es2 ?s1) = sub_pc ?s1"
    "\<forall>n f. wrk_pc (exec es2 ?s1) n \<noteq> W_Work f" by blast
  let ?s2 = "exec (es1 @ es2) s"
  have s2: "?s2 = exec es2 ?s1" by (simp add: exec_append)
  have r2: "reach ?s2" by (rule reach_exec[OF r])
  have ns: "nosub (es1 @ es2)" using es1(1) es2(1) by simp
  have c: "ran ?s2 g = submitted s g \<and> held ?s2 g = 0 \<and> waiting ?s2 g = 0" for g
  proof -
    have h: "held ?s2 g = 0" using es2(3) by (simp add: held_def s2)
    have "sub_pc ?s2 j = S_Done" if "j < nsub ?s2" for j
      using started_reach[OF r2 that] es1(2) es2(2) by (auto simp: s2 pending_def)
    then have "{i. i < nsub ?s2 \<and> sub_f ?s2 i = g \<and> sub_pc ?s2 i \<noteq> S_Done} = {}" by auto
    then have w: "waiting ?s2 g = 0" by (simp add: waiting_def)
    have "?s2 = exec (es @ es1 @ es2) (New d)" using s by (simp add: exec_append)
    then have "accounted ?s2 g" using accounted_reach[of "es @ es1 @ es2" d g] by simp
    then have "ran ?s2 g = submitted ?s2 g" using h w by (simp add: accounted_def)
    then show ?thesis using h w submitted_frame[OF ns, of s g] by simp
  qed
  have c': "\<exists>es'. nosub es' \<and>
            (\<forall>g. ran (exec es' s) g = submitted s g \<and> held (exec es' s) g = 0 \<and>
                 waiting (exec es' s) g = 0)"
    using c ns by blast
  have q: "quiescent s \<longrightarrow> (\<forall>g. ran s g = submitted s g \<and> held s g = 0 \<and> waiting s g = 0)"
    using quiescent_done[OF r] by blast
  have bd: "\<forall>es'. budget (exec es' s) + moves es' s
                  \<le> budget s + 18 * submits es' + 19 * fires es'"
    using budget_exec[OF r] by blast
  have fin: "moves es' s \<le> budget s \<and>
            (quiescent (exec es' s) \<longrightarrow>
               (\<forall>g. ran (exec es' s) g = submitted s g \<and> held (exec es' s) g = 0 \<and>
                    waiting (exec es' s) g = 0))"
    if h: "nosub es' \<and> fires es' = 0" for es'
  proof -
    have "moves es' s \<le> budget s"
      using budget_exec[OF r, of es'] h submits_nosub[of es'] by simp
    moreover have "ran (exec es' s) g = submitted s g \<and> held (exec es' s) g = 0 \<and>
                    waiting (exec es' s) g = 0" if "quiescent (exec es' s)" for g
      using quiescent_done[OF reach_exec[OF r] that, of g] submitted_frame[of es' s g] h
      by simp
    ultimately show ?thesis by blast
  qed
  show ?thesis using a b c' q bd fin by blast
qed

text \<open>
  The claim as stated fails in its clause "no loss": that a submitted work item is
  executed is not true of every schedule. When the timer channel of each newly
  allocated worker delivers before the compare-and-swap of its submitter (line 61),
  the worker stores Dying and returns, the submitter discards it and calls \<open>get\<close>
  again. After \<open>k\<close> such rounds the threads have executed \<open>9 * k\<close> statements, the
  submitter is at line 76 again and its work item has not been run.
\<close>

theorem timer_starves_submitter:
  "\<forall>k. moves (starve k) (exec [Submit 7] (New 0)) = 9 * k \<and>
       fires (starve k) = k \<and>
       sub_pc (exec (starve k) (exec [Submit 7] (New 0))) 0 = S_Lock \<and>
       submitted (exec (starve k) (exec [Submit 7] (New 0))) 7 = 1 \<and>
       ran (exec (starve k) (exec [Submit 7] (New 0))) 7 = 0"
proof
  fix k
  let ?s = "exec (starve k) (exec [Submit 7] (New 0))"
  note S = starve_state[of k 7 0]
  have "{i. i < Suc 0 \<and> sub_f ?s i = 7} = {0}" using S by auto
  then have a: "submitted ?s 7 = 1" using S by (simp add: submitted_def)
  have b: "ran ?s 7 = 0" using S by (simp add: ran_def)
  show "moves (starve k) (exec [Submit 7] (New 0)) = 9 * k \<and>
       fires (starve k) = k \<and> sub_pc ?s 0 = S_Lock \<and> submitted ?s 7 = 1 \<and> ran ?s 7 = 0"
    using S a b by simp
qed

theorem work_run_exactly_once_witness:
  "submitted (exec [Submit 7] (New 0)) 7 = 1 \<and>
   ran (exec [Submit 7] (New 0)) 7 + held (exec [Submit 7] (New 0)) 7
     + waiting (exec [Submit 7] (New 0)) 7 = submitted (exec [Submit 7] (New 0)) 7 \<and>
   budget (exec [Submit 7] (New 0)) = 18 \<and>
   nosub finish_job \<and> fires finish_job = 0 \<and>
   moves finish_job (exec [Submit 7] (New 0)) \<le> 18 \<and>
   quiescent (exec finish_job (exec [Submit 7] (New 0))) \<and>
   log (exec finish_job (exec [Submit 7] (New 0))) = [(0, 7)] \<and>
   ran (exec finish_job (exec [Submit 7] (New 0))) 7 = 1 \<and>
   held (exec finish_job (exec [Submit 7] (New 0))) 7 = 0 \<and>
   waiting (exec finish_job (exec [Submit 7] (New 0))) 7 = 0"
proof -
  let ?s = "exec [Submit 7] (New 0)"
  note T = work_run_exactly_once[OF refl, of "[Submit 7]" 0 7]
  have a: "ran ?s 7 + held ?s 7 + waiting ?s 7 = submitted ?s 7" using T by blast
  have "{i. i < Suc 0 \<and> (i = 0 \<longrightarrow> True)} = {0::nat}" by auto
  then have b: "submitted ?s 7 = 1"
    by (simp add: submitted_def eval_defs)
  have c: "budget ?s = 18"
    by (simp add: budget_def sub_budget_def wrk_budget_def eval_defs)
  have d: "nosub finish_job" by (simp add: finish_job_def claim_fresh_def serve_def)
  have e: "fires finish_job = 0" by (simp add: finish_job_def claim_fresh_def serve_def fires_def)
  have q: "quiescent (exec finish_job ?s)"
    by (simp add: quiescent_def finish_job_def eval_defs)
  have l: "log (exec finish_job ?s) = [(0, 7)]" by (simp add: finish_job_def eval_defs)
  from T have "nosub finish_job \<and> fires finish_job = 0 \<longrightarrow>
      moves finish_job ?s \<le> budget ?s \<and>
      (quiescent (exec finish_job ?s) \<longrightarrow>
         (\<forall>g. ran (exec finish_job ?s) g = submitted ?s g \<and> held (exec finish_job ?s) g = 0 \<and>
              waiting (exec finish_job ?s) g = 0))"
    by blast
  then have m: "moves finish_job ?s \<le> 18"
    and r: "ran (exec finish_job ?s) 7 = 1 \<and> held (exec finish_job ?s) 7 = 0 \<and>
            waiting (exec finish_job ?s) 7 = 0"
    using d e q b c by auto
  show ?thesis using a b c d e m q l r by blast
qed

end
